theory Spec2Isabelle
  imports Main "HOL-Library.AList" "HOL-Library.Char_ord" "HOL-Library.List_Lexorder"
begin

section \<open>The i* to UVL converter: an embedding of the two scripts\<close>

text \<open>
  The repository holds two variants of one script. Where a function is the same in both
  files it is modelled once under its own name; where the two files differ the
  definition from \<^verbatim>\<open>iStar-UVL.py\<close> carries the suffix \<open>_v1\<close> and the one from
  \<^verbatim>\<open>istar-uvl.py\<close> the suffix \<open>_v2\<close>.

  Python text is modelled as \<open>string\<close>. What \<^verbatim>\<open>str.isspace\<close>, \<^verbatim>\<open>str.isalnum\<close>,
  \<^verbatim>\<open>str.lower\<close> and \<^verbatim>\<open>str.capitalize\<close> compute is laid down by the Unicode character
  database of the interpreter, not by the scripts: these four are the fields of a record
  \<open>unicode\<close>, which every definition that calls one of them takes as its first argument
  \<open>U\<close>, and every property is proved for all values of \<open>U\<close>. The functions the
  scripts import from libraries (\<^verbatim>\<open>html.unescape\<close>, \<^verbatim>\<open>unidecode\<close>,
  \<^verbatim>\<open>unicodedata.normalize\<close>, \<^verbatim>\<open>unicodedata.category\<close>) are parameters of the
  definitions that call them in the same way. An argument that the source tests against
  \<^verbatim>\<open>None\<close> is a \<open>string option\<close>.
\<close>

subsection \<open>Methods of Python's str\<close>

text \<open>
  \<open>isspace\<close> is \<^verbatim>\<open>c.isspace()\<close> for one character \<open>c\<close>, the test that
  \<^verbatim>\<open>strip()\<close> and \<^verbatim>\<open>split()\<close> apply to each character; \<open>isalnum_char\<close> is
  \<^verbatim>\<open>c.isalnum()\<close> for one character; \<open>lower\<close> is \<^verbatim>\<open>s.lower()\<close> and \<open>capitalize\<close>
  is \<^verbatim>\<open>s.capitalize()\<close>, both on whole texts, since they may change the number of
  characters.
\<close>

record unicode =
  isspace :: "char \<Rightarrow> bool"
  isalnum_char :: "char \<Rightarrow> bool"
  lower :: "string \<Rightarrow> string"
  capitalize :: "string \<Rightarrow> string"

text \<open>\<^verbatim>\<open>s.strip()\<close>\<close>

definition strip :: "unicode \<Rightarrow> string \<Rightarrow> string" where
  "strip U s = rev (dropWhile (isspace U) (rev (dropWhile (isspace U) s)))"

text \<open>\<^verbatim>\<open>s.split()\<close>: the maximal runs of characters that are not white space.\<close>

function split_ws :: "unicode \<Rightarrow> string \<Rightarrow> string list" where
  "split_ws U s =
     (case dropWhile (isspace U) s of
        [] \<Rightarrow> []
      | c # cs \<Rightarrow> takeWhile (\<lambda>x. \<not> isspace U x) (c # cs)
                 # split_ws U (dropWhile (\<lambda>x. \<not> isspace U x) (c # cs)))"
  by pat_completeness auto
termination
proof (relation "measure (\<lambda>(U, s). length s)")
  show "wf (measure (\<lambda>(U :: unicode, s :: string). length s))" by simp
next
  fix U :: unicode and s :: string and c :: char and cs :: string
  assume eq: "dropWhile (isspace U) s = c # cs"
  have "\<not> isspace U c"
    using hd_dropWhile [of "isspace U" s] eq by simp
  then have "dropWhile (\<lambda>x. \<not> isspace U x) (c # cs) = dropWhile (\<lambda>x. \<not> isspace U x) cs"
    by simp
  moreover have "length (dropWhile (\<lambda>x. \<not> isspace U x) cs) \<le> length cs"
    by (rule length_dropWhile_le)
  moreover have "length (c # cs) \<le> length s"
    using length_dropWhile_le [of "isspace U" s] eq by simp
  ultimately show "((U, dropWhile (\<lambda>x. \<not> isspace U x) (c # cs)), (U, s))
      \<in> measure (\<lambda>(U, s). length s)"
    by simp
qed

declare split_ws.simps [simp del]

text \<open>\<^verbatim>\<open>sep.join(parts)\<close>\<close>

fun join :: "string \<Rightarrow> string list \<Rightarrow> string" where
  "join sep [] = []"
| "join sep [x] = x"
| "join sep (x # y # ys) = x @ sep @ join sep (y # ys)"

text \<open>\<^verbatim>\<open>s.isalnum()\<close> on a text: every character is alphanumeric and there is at least
  one.\<close>

definition isalnum :: "unicode \<Rightarrow> string \<Rightarrow> bool" where
  "isalnum U s = (s \<noteq> [] \<and> list_all (isalnum_char U) s)"

text \<open>\<^verbatim>\<open>s.replace("_", " ")\<close>\<close>

definition replace_underscore :: "string \<Rightarrow> string" where
  "replace_underscore s = map (\<lambda>c. if c = CHR ''_'' then CHR '' '' else c) s"

text \<open>\<^verbatim>\<open>s.startswith(p)\<close>\<close>

fun startswith :: "string \<Rightarrow> string \<Rightarrow> bool" where
  "startswith s [] = True"
| "startswith [] (p # ps) = False"
| "startswith (c # cs) (p # ps) = (c = p \<and> startswith cs ps)"

text \<open>\<^verbatim>\<open>sub in s\<close>\<close>

fun contains :: "string \<Rightarrow> string \<Rightarrow> bool" where
  "contains sub [] = (sub = [])"
| "contains sub (c # cs) = (startswith (c # cs) sub \<or> contains sub cs)"

text \<open>\<^verbatim>\<open>s.split(sep, 1)\<close> for a separator that is not empty: one part when \<open>sep\<close> does
  not occur, otherwise the text before and the text after its first occurrence.\<close>

fun split1 :: "string \<Rightarrow> string \<Rightarrow> string list" where
  "split1 sep [] = [[]]"
| "split1 sep (c # cs) =
     (if startswith (c # cs) sep then [[], drop (length sep) (c # cs)]
      else (case split1 sep cs of
              [k, f] \<Rightarrow> [c # k, f]
            | _ \<Rightarrow> [c # cs]))"

subsection \<open>TextSanitizer: cleanLabelText\<close>

text \<open>
  \<^verbatim>\<open>re.sub(r"<[^>]+>", " ", decoded)\<close>. At a position holding \<open><\<close> the pattern
  matches when at least one character other than \<open>>\<close> follows and that run ends in a
  \<open>>\<close>; \<open>match_tag\<close> takes the text after the \<open><\<close> and returns what follows the
  match. The scan replaces each match by one space and goes on behind it.
\<close>

definition match_tag :: "string \<Rightarrow> string option" where
  "match_tag cs =
     (let body = takeWhile (\<lambda>c. c \<noteq> CHR ''>'') cs;
          rest = dropWhile (\<lambda>c. c \<noteq> CHR ''>'') cs
      in if body \<noteq> [] \<and> rest \<noteq> [] then Some (tl rest) else None)"

function sub_tags :: "string \<Rightarrow> string" where
  "sub_tags [] = []"
| "sub_tags (c # cs) =
     (if c = CHR ''<'' then
        (case match_tag cs of
           Some rest \<Rightarrow> CHR '' '' # sub_tags rest
         | None \<Rightarrow> c # sub_tags cs)
      else c # sub_tags cs)"
  by pat_completeness auto
termination
proof (relation "measure length")
  show "wf (measure length)" by simp
next
  fix c :: char and cs rest :: string
  assume "match_tag cs = Some rest"
  then have "rest = tl (dropWhile (\<lambda>c. c \<noteq> CHR ''>'') cs)"
    by (simp add: match_tag_def Let_def split: if_splits)
  moreover have "length (dropWhile (\<lambda>c. c \<noteq> CHR ''>'') cs) \<le> length cs"
    by (rule length_dropWhile_le)
  ultimately show "(rest, c # cs) \<in> measure length"
    by simp
qed simp_all

definition cleanLabelText ::
  "unicode \<Rightarrow> (string \<Rightarrow> string) \<Rightarrow> string option \<Rightarrow> string" where
  "cleanLabelText U unescape rawText =
     (case rawText of
        None \<Rightarrow> []
      | Some raw \<Rightarrow>
          (let decoded = unescape raw;
               withoutTags = strip U (sub_tags decoded)
           in withoutTags))"

text \<open>The tag pattern matches at the head of a text, and somewhere in a text.\<close>

definition tag_at :: "string \<Rightarrow> bool" where
  "tag_at s = (case s of [] \<Rightarrow> False | c # cs \<Rightarrow> c = CHR ''<'' \<and> match_tag cs \<noteq> None)"

fun has_tag :: "string \<Rightarrow> bool" where
  "has_tag [] = False"
| "has_tag (c # cs) = (tag_at (c # cs) \<or> has_tag cs)"

subsection \<open>TextNormalizer: normalizeText\<close>

text \<open>\<^verbatim>\<open>iStar-UVL.py\<close>: transliteration by the \<^verbatim>\<open>unidecode\<close> package.\<close>

definition normalizeText_v1 ::
  "unicode \<Rightarrow> (string \<Rightarrow> string) \<Rightarrow> string option \<Rightarrow> string" where
  "normalizeText_v1 U unidecode inputText =
     (case inputText of
        None \<Rightarrow> []
      | Some t \<Rightarrow>
          (let lowerCaseText = lower U (strip U t);
               textWithoutAccents = unidecode lowerCaseText;
               wordList = split_ws U textWithoutAccents;
               cleanedText = join '' '' wordList
           in cleanedText))"

text \<open>\<^verbatim>\<open>istar-uvl.py\<close>: canonical decomposition, then the loop that keeps every
  character whose category is not \<^verbatim>\<open>Mn\<close>.\<close>

fun drop_marks :: "(char \<Rightarrow> string) \<Rightarrow> string \<Rightarrow> string \<Rightarrow> string" where
  "drop_marks category [] charactersWithoutAccents = charactersWithoutAccents"
| "drop_marks category (character # rest) charactersWithoutAccents =
     (if category character \<noteq> ''Mn''
      then drop_marks category rest (charactersWithoutAccents @ [character])
      else drop_marks category rest charactersWithoutAccents)"

definition normalizeText_v2 ::
  "unicode \<Rightarrow> (string \<Rightarrow> string) \<Rightarrow> (char \<Rightarrow> string) \<Rightarrow> string option \<Rightarrow> string" where
  "normalizeText_v2 U normalize_NFD category inputText =
     (case inputText of
        None \<Rightarrow> []
      | Some t \<Rightarrow>
          (let lowerCaseText = lower U (strip U t);
               decomposedText = normalize_NFD lowerCaseText;
               textWithoutAccents = drop_marks category decomposedText [];
               cleanedText = join '' '' (split_ws U textWithoutAccents)
           in cleanedText))"

subsection \<open>IdentifierFormatter\<close>

text \<open>The loop of both files that keeps the alphanumeric words, capitalized.\<close>

fun collect_words ::
  "unicode \<Rightarrow> string list \<Rightarrow> string list \<Rightarrow> string list" where
  "collect_words U [] capitalizedWords = capitalizedWords"
| "collect_words U (w # rest) capitalizedWords =
     (if isalnum U w then collect_words U rest (capitalizedWords @ [capitalize U w])
      else collect_words U rest capitalizedWords)"

text \<open>\<^verbatim>\<open>iStar-UVL.py\<close>, formatRootFeatureName.\<close>

definition formatRootFeatureName ::
  "unicode \<Rightarrow> (string \<Rightarrow> string) \<Rightarrow> (string \<Rightarrow> string) \<Rightarrow> string option \<Rightarrow> string" where
  "formatRootFeatureName U unescape unidecode inputText =
     (case inputText of
        None \<Rightarrow> ''RootGoal''
      | Some t \<Rightarrow>
          if t = [] then ''RootGoal''
          else
            (let cleaned = cleanLabelText U unescape (Some t);
                 normalized = normalizeText_v1 U unidecode (Some cleaned);
                 wordList = split_ws U (replace_underscore normalized);
                 capitalizedWords = collect_words U wordList [];
                 identifier = concat capitalizedWords
             in if identifier = [] then ''RootGoal'' else identifier))"

text \<open>\<^verbatim>\<open>istar-uvl.py\<close>, convertTextToUvlIdentifier, with its first loop.\<close>

fun clean_characters :: "unicode \<Rightarrow> string \<Rightarrow> string \<Rightarrow> string" where
  "clean_characters U [] cleanedCharacters = cleanedCharacters"
| "clean_characters U (character # rest) cleanedCharacters =
     (if isalnum_char U character \<or> character \<in> {CHR '' '', CHR ''_''}
      then clean_characters U rest (cleanedCharacters @ [character])
      else clean_characters U rest (cleanedCharacters @ [CHR '' '']))"

definition convertTextToUvlIdentifier :: "unicode \<Rightarrow> string option \<Rightarrow> string" where
  "convertTextToUvlIdentifier U inputText =
     (case inputText of
        None \<Rightarrow> ''RootGoal''
      | Some t \<Rightarrow>
          (let joinedText = clean_characters U t [];
               separatedText = replace_underscore joinedText;
               splitWords = split_ws U separatedText;
               wordList = collect_words U splitWords []
           in if length wordList = 0 then ''RootGoal'' else concat wordList))"

text \<open>The formatter as section 4.3 of the specification words it, step by step.\<close>

definition toIdentifier_spec :: "unicode \<Rightarrow> string option \<Rightarrow> string" where
  "toIdentifier_spec U inputText =
     (case inputText of
        None \<Rightarrow> ''RootGoal''
      | Some t \<Rightarrow>
          if t = [] then ''RootGoal''
          else
            (let punctuationFree =
                   map (\<lambda>c. if isalnum_char U c \<or> c = CHR '' '' \<or> c = CHR ''_'' then c
                             else CHR '' '') t;
                 underscoreFree = map (\<lambda>c. if c = CHR ''_'' then CHR '' '' else c) punctuationFree;
                 kept = filter (isalnum U) (split_ws U underscoreFree)
             in if kept = [] then ''RootGoal'' else concat (map (capitalize U) kept)))"

subsection \<open>MappingStore\<close>

datatype error = FileNotFoundError | ValueError | KeyError

text \<open>A mapping table is a Python dict from keyword to feature: an association list in
  insertion order, written by \<open>AList.update\<close> (a key that is present keeps its place
  and takes the new value). The directory of mapping files is a partial map from a path
  to the lines of the file, each line with its line end.\<close>

type_synonym table = "(string \<times> string) list"

type_synonym filesystem = "string \<rightharpoonup> string list"

text \<open>\<^verbatim>\<open>iStar-UVL.py\<close>. Its test \<^verbatim>\<open>cleanedLine is None\<close> never holds for the result of
  \<^verbatim>\<open>strip\<close>, so the only test left is the one for the delimiter; opening a file that
  does not exist raises.\<close>

fun load_lines_v1 ::
  "unicode \<Rightarrow> (string \<Rightarrow> string) \<Rightarrow> string list \<Rightarrow> table \<Rightarrow> error + table" where
  "load_lines_v1 U unidecode [] mapping = Inr mapping"
| "load_lines_v1 U unidecode (line # rest) mapping =
     (let cleanedLine = strip U line in
      if \<not> contains ''=>'' cleanedLine then load_lines_v1 U unidecode rest mapping
      else
        (case split1 ''=>'' cleanedLine of
           [keyPart, featurePart] \<Rightarrow>
             (let normalizedKey = normalizeText_v1 U unidecode (Some keyPart);
                  normalizedFeature = strip U featurePart
              in load_lines_v1 U unidecode rest (AList.update normalizedKey normalizedFeature mapping))
         | _ \<Rightarrow> Inl ValueError))"

definition loadMappingFile_v1 ::
  "unicode \<Rightarrow> (string \<Rightarrow> string) \<Rightarrow> filesystem \<Rightarrow> string \<Rightarrow> error + table" where
  "loadMappingFile_v1 U unidecode fs filePath =
     (case fs filePath of
        None \<Rightarrow> Inl FileNotFoundError
      | Some fileLines \<Rightarrow> load_lines_v1 U unidecode fileLines [])"

definition categories :: "string list" where
  "categories = [''algorithms'', ''nfrs'', ''backend'', ''integration'']"

fun load_categories_v1 ::
  "unicode \<Rightarrow> (string \<Rightarrow> string) \<Rightarrow> filesystem \<Rightarrow> string \<Rightarrow> string list
     \<Rightarrow> (string \<rightharpoonup> table) \<Rightarrow> error + (string \<rightharpoonup> table)" where
  "load_categories_v1 U unidecode fs configDirectory [] categoryMappings = Inr categoryMappings"
| "load_categories_v1 U unidecode fs configDirectory (category # rest) categoryMappings =
     (let filePath = configDirectory @ ''/'' @ category @ ''.txt'' in
      case loadMappingFile_v1 U unidecode fs filePath of
        Inl e \<Rightarrow> Inl e
      | Inr mapping \<Rightarrow>
          load_categories_v1 U unidecode fs configDirectory rest
            (categoryMappings(category \<mapsto> mapping)))"

definition loadAllMappingFiles_v1 ::
  "unicode \<Rightarrow> (string \<Rightarrow> string) \<Rightarrow> filesystem \<Rightarrow> string \<Rightarrow> error + (string \<rightharpoonup> table)" where
  "loadAllMappingFiles_v1 U unidecode fs configDirectory =
     load_categories_v1 U unidecode fs configDirectory categories Map.empty"

text \<open>\<^verbatim>\<open>istar-uvl.py\<close>. Blank lines, comment lines and lines without the delimiter are
  skipped, the raw line is split, and \<^verbatim>\<open>FileNotFoundError\<close> is caught.\<close>

fun load_lines_v2 ::
  "unicode \<Rightarrow> (string \<Rightarrow> string) \<Rightarrow> (char \<Rightarrow> string) \<Rightarrow> string list \<Rightarrow> table \<Rightarrow> error + table" where
  "load_lines_v2 U normalize_NFD category [] mappingDictionary = Inr mappingDictionary"
| "load_lines_v2 U normalize_NFD category (line # rest) mappingDictionary =
     (let cleanedLine = strip U line in
      if cleanedLine = [] \<or> startswith cleanedLine ''#'' \<or> \<not> contains ''=>'' cleanedLine
      then load_lines_v2 U normalize_NFD category rest mappingDictionary
      else
        (case split1 ''=>'' line of
           [keyPart, featurePart] \<Rightarrow>
             (let normalizedKey = normalizeText_v2 U normalize_NFD category (Some keyPart)
              in load_lines_v2 U normalize_NFD category rest
                   (AList.update normalizedKey (strip U featurePart) mappingDictionary))
         | _ \<Rightarrow> Inl ValueError))"

definition loadMappingFile_v2 ::
  "unicode \<Rightarrow> (string \<Rightarrow> string) \<Rightarrow> (char \<Rightarrow> string) \<Rightarrow> filesystem \<Rightarrow> string \<Rightarrow> error + table" where
  "loadMappingFile_v2 U normalize_NFD category fs filePath =
     (case fs filePath of
        None \<Rightarrow> Inr []
      | Some fileLines \<Rightarrow> load_lines_v2 U normalize_NFD category fileLines [])"

definition loadAllMappingFiles_v2 ::
  "unicode \<Rightarrow> (string \<Rightarrow> string) \<Rightarrow> (char \<Rightarrow> string) \<Rightarrow> filesystem \<Rightarrow> string
     \<Rightarrow> error + (string \<rightharpoonup> table)" where
  "loadAllMappingFiles_v2 U normalize_NFD category fs configDirectory =
     (case loadMappingFile_v2 U normalize_NFD category fs (configDirectory @ ''/algorithms.txt'') of
        Inl e \<Rightarrow> Inl e
      | Inr m1 \<Rightarrow>
     (case loadMappingFile_v2 U normalize_NFD category fs (configDirectory @ ''/nfrs.txt'') of
        Inl e \<Rightarrow> Inl e
      | Inr m2 \<Rightarrow>
     (case loadMappingFile_v2 U normalize_NFD category fs (configDirectory @ ''/backend.txt'') of
        Inl e \<Rightarrow> Inl e
      | Inr m3 \<Rightarrow>
     (case loadMappingFile_v2 U normalize_NFD category fs (configDirectory @ ''/integration.txt'') of
        Inl e \<Rightarrow> Inl e
      | Inr m4 \<Rightarrow>
          Inr [''algorithms'' \<mapsto> m1, ''nfrs'' \<mapsto> m2, ''backend'' \<mapsto> m3,
               ''integration'' \<mapsto> m4]))))"

subsection \<open>FeatureClassifier\<close>

text \<open>One parsed diagram element, as parseIStarXml builds it.\<close>

record istar_object =
  otype :: string
  label :: string
  norm :: string

text \<open>\<^verbatim>\<open>d[key]\<close> on a dict: a missing key raises.\<close>

definition getitem :: "('k \<rightharpoonup> 'v) \<Rightarrow> 'k \<Rightarrow> error + 'v" where
  "getitem d k = (case d k of None \<Rightarrow> Inl KeyError | Some v \<Rightarrow> Inr v)"

text \<open>The inner loop over the items of one table, and the loop over the objects with its
  four accumulating sets.\<close>

fun scan_items :: "string \<Rightarrow> table \<Rightarrow> string set \<Rightarrow> string set" where
  "scan_items txt [] found = found"
| "scan_items txt ((keyword, feature) # rest) found =
     scan_items txt rest (if contains keyword txt then insert feature found else found)"

fun scan_objects ::
  "istar_object list \<Rightarrow> (string \<rightharpoonup> table)
     \<Rightarrow> string set \<times> string set \<times> string set \<times> string set
     \<Rightarrow> error + (string set \<times> string set \<times> string set \<times> string set)" where
  "scan_objects [] mappingDictionaries found = Inr found"
| "scan_objects (obj # rest) mappingDictionaries (algos, nfrs, backs, integrs) =
     (let txt = norm obj in
      case getitem mappingDictionaries ''algorithms'' of
        Inl e \<Rightarrow> Inl e
      | Inr t1 \<Rightarrow>
     (case getitem mappingDictionaries ''nfrs'' of
        Inl e \<Rightarrow> Inl e
      | Inr t2 \<Rightarrow>
     (case getitem mappingDictionaries ''backend'' of
        Inl e \<Rightarrow> Inl e
      | Inr t3 \<Rightarrow>
     (case getitem mappingDictionaries ''integration'' of
        Inl e \<Rightarrow> Inl e
      | Inr t4 \<Rightarrow>
          scan_objects rest mappingDictionaries
            (scan_items txt t1 algos, scan_items txt t2 nfrs,
             scan_items txt t3 backs, scan_items txt t4 integrs)))))"

definition applyDefaultValues ::
  "string set \<Rightarrow> string set \<Rightarrow> (string \<rightharpoonup> table) \<Rightarrow> error + (string set \<times> string set)" where
  "applyDefaultValues backs integrs mappingDictionaries =
     (case getitem mappingDictionaries ''backend'' of
        Inl e \<Rightarrow> Inl e
      | Inr backendTable \<Rightarrow>
     (case getitem mappingDictionaries ''integration'' of
        Inl e \<Rightarrow> Inl e
      | Inr integrationTable \<Rightarrow>
          (let backendValues = map snd backendTable;
               integrationValues = map snd integrationTable;
               backs' = (if backs = {} \<and> ''Hardware'' \<in> set backendValues
                         then insert ''Hardware'' backs else backs);
               integrs' = (if integrs = {} \<and> ''Middleware'' \<in> set integrationValues
                           then insert ''Middleware'' integrs else integrs)
           in Inr (backs', integrs'))))"

text \<open>Python's \<^verbatim>\<open>sorted\<close> of a set of strings is \<open>sorted_list_of_set\<close>: strings
  compare character by character on their code points.\<close>

definition mapIStarObjectsToFeatures ::
  "istar_object list \<Rightarrow> (string \<rightharpoonup> table)
     \<Rightarrow> error + (string list \<times> string list \<times> string list \<times> string list)" where
  "mapIStarObjectsToFeatures objectList mappingDictionaries =
     (case scan_objects objectList mappingDictionaries ({}, {}, {}, {}) of
        Inl e \<Rightarrow> Inl e
      | Inr (algos, nfrs, backs, integrs) \<Rightarrow>
     (case applyDefaultValues backs integrs mappingDictionaries of
        Inl e \<Rightarrow> Inl e
      | Inr (backs', integrs') \<Rightarrow>
          Inr (sorted_list_of_set algos, sorted_list_of_set nfrs,
               sorted_list_of_set backs', sorted_list_of_set integrs')))"

subsection \<open>UvlRenderer: buildUvlModel\<close>

definition newline :: string where
  "newline = [CHR 0x0A]"

text \<open>The list \<^verbatim>\<open>lines\<close> up to the empty separator line, and what the last
  \<^verbatim>\<open>if\<close> of the function appends to it.\<close>

definition featureLines ::
  "string \<Rightarrow> string list \<Rightarrow> string list \<Rightarrow> string list \<Rightarrow> string list \<Rightarrow> string list" where
  "featureLines rootFeature algos nfrs backs integrs =
     [''features {''] @ [''  '' @ rootFeature @ '' {'']
     @ (if length algos > 0
        then [''    Algorithm {''] @ map (\<lambda>algo. ''      '' @ algo) algos @ [''    }'']
        else [])
     @ (if length backs > 0
        then [''    Backend {''] @ map (\<lambda>back. ''      '' @ back) backs @ [''    }'']
        else [])
     @ (if length integrs > 0
        then [''    IntegrationModel {''] @ map (\<lambda>integr. ''      '' @ integr) integrs
             @ [''    }'']
        else [])
     @ map (\<lambda>n. ''    '' @ n) nfrs
     @ [''  }''] @ [''}''] @ [[]]"

definition constraintLines :: "string list \<Rightarrow> string list \<Rightarrow> string list" where
  "constraintLines algos nfrs =
     (if length algos > 0 \<and> ''Precision'' \<in> set nfrs
      then [''constraints {''] @ map (\<lambda>algo. ''  '' @ algo @ '' requires Precision'') algos
           @ [''}'']
      else [])"

definition buildUvlModel ::
  "string \<Rightarrow> string list \<Rightarrow> string list \<Rightarrow> string list \<Rightarrow> string list \<Rightarrow> string" where
  "buildUvlModel rootFeature algos nfrs backs integrs =
     join newline (featureLines rootFeature algos nfrs backs integrs @ constraintLines algos nfrs)"

text \<open>The layout section 4.7 of the specification asks for: a tree of named blocks and
  leaves, each level indented two spaces more than the one around it.\<close>

datatype uvl_node = Leaf string | Block string "uvl_node list"

fun render :: "nat \<Rightarrow> uvl_node \<Rightarrow> string list" where
  "render depth (Leaf name) = [replicate (2 * depth) (CHR '' '') @ name]"
| "render depth (Block name children) =
     [replicate (2 * depth) (CHR '' '') @ name @ '' {'']
     @ concat (map (render (Suc depth)) children)
     @ [replicate (2 * depth) (CHR '' '') @ ''}'']"

definition group :: "string \<Rightarrow> string list \<Rightarrow> uvl_node list" where
  "group name members = (if members = [] then [] else [Block name (map Leaf members)])"

definition featureTree ::
  "string \<Rightarrow> string list \<Rightarrow> string list \<Rightarrow> string list \<Rightarrow> string list \<Rightarrow> uvl_node" where
  "featureTree rootFeature algos nfrs backs integrs =
     Block ''features''
       [Block rootFeature
          (group ''Algorithm'' algos @ group ''Backend'' backs
           @ group ''IntegrationModel'' integrs @ map Leaf nfrs)]"

subsection \<open>Notions the properties are stated with\<close>

text \<open>What the specification says classification finds for one table: the features of
  the pairs whose keyword occurs in the normalized label of some object.\<close>

definition keyword_hits :: "table \<Rightarrow> istar_object list \<Rightarrow> string set" where
  "keyword_hits t objectList =
     {feature. \<exists>keyword obj pre post.
        (keyword, feature) \<in> set t \<and> obj \<in> set objectList \<and> norm obj = pre @ keyword @ post}"

text \<open>
  The examples below are worked on text of ASCII characters, where Python's tables are
  these: white space is U+0009 to U+000D, U+001C to U+001F and the space; the
  alphanumeric characters are the digits and the letters; \<^verbatim>\<open>lower\<close> turns each
  capital letter into its small letter; \<^verbatim>\<open>capitalize\<close> gives the first character as
  a capital letter and the others as small letters. \<open>ascii_tables\<close> agrees with Python
  on every text of ASCII characters. It is used on one other character, the section
  sign U+00A7, which in Python as here is neither white space nor alphanumeric and has
  no case.
\<close>

definition ascii_uppercase :: string where
  "ascii_uppercase = ''ABCDEFGHIJKLMNOPQRSTUVWXYZ''"

definition ascii_lowercase :: string where
  "ascii_lowercase = ''abcdefghijklmnopqrstuvwxyz''"

definition ascii_digits :: string where
  "ascii_digits = ''0123456789''"

definition ascii_whitespace :: string where
  "ascii_whitespace = [CHR 0x09, CHR 0x0A, CHR 0x0B, CHR 0x0C, CHR 0x0D,
                       CHR 0x1C, CHR 0x1D, CHR 0x1E, CHR 0x1F, CHR 0x20]"

definition ascii_lower_char :: "char \<Rightarrow> char" where
  "ascii_lower_char c = (case map_of (zip ascii_uppercase ascii_lowercase) c of
                           Some d \<Rightarrow> d | None \<Rightarrow> c)"

definition ascii_upper_char :: "char \<Rightarrow> char" where
  "ascii_upper_char c = (case map_of (zip ascii_lowercase ascii_uppercase) c of
                           Some d \<Rightarrow> d | None \<Rightarrow> c)"

definition ascii_tables :: unicode where
  "ascii_tables =
     \<lparr>isspace = (\<lambda>c. c \<in> set ascii_whitespace),
      isalnum_char = (\<lambda>c. c \<in> set (ascii_digits @ ascii_uppercase @ ascii_lowercase)),
      lower = map ascii_lower_char,
      capitalize = (\<lambda>s. case s of [] \<Rightarrow> []
                          | c # cs \<Rightarrow> ascii_upper_char c # map ascii_lower_char cs)\<rparr>"

text \<open>The table of the \<^verbatim>\<open>unidecode\<close> package as far as the example on the section sign
  needs it: the package writes \<open>SS\<close> for the code point U+00A7 and keeps every code
  point below 128; the other characters, which the example does not use, are kept here.\<close>

definition unidecode_section_sign :: "string \<Rightarrow> string" where
  "unidecode_section_sign s = concat (map (\<lambda>c. if c = CHR 0xA7 then ''SS'' else [c]) s)"

text \<open>What section 4.4 of the specification says of a line that gives an entry: the line
  is \<open>key => feature\<close>, split at its first delimiter; the key is normalized and the
  feature is trimmed. In \<^verbatim>\<open>iStar-UVL.py\<close> the trimmed line is split, in \<^verbatim>\<open>istar-uvl.py\<close>
  the line as read, whose trimmed form is neither blank nor a comment and holds the
  delimiter.\<close>

definition entry_of_v1 ::
  "unicode \<Rightarrow> (string \<Rightarrow> string) \<Rightarrow> string \<Rightarrow> string \<times> string \<Rightarrow> bool" where
  "entry_of_v1 U unidecode line e =
     (\<exists>keyPart featurePart.
        strip U line = keyPart @ ''=>'' @ featurePart \<and> \<not> contains ''=>'' (keyPart @ ''='')
        \<and> e = (normalizeText_v1 U unidecode (Some keyPart), strip U featurePart))"

definition entry_of_v2 ::
  "unicode \<Rightarrow> (string \<Rightarrow> string) \<Rightarrow> (char \<Rightarrow> string) \<Rightarrow> string \<Rightarrow> string \<times> string \<Rightarrow> bool" where
  "entry_of_v2 U normalize_NFD category line e =
     (\<exists>keyPart featurePart.
        line = keyPart @ ''=>'' @ featurePart \<and> \<not> contains ''=>'' (keyPart @ ''='')
        \<and> strip U line \<noteq> [] \<and> \<not> startswith (strip U line) ''#''
        \<and> contains ''=>'' (strip U line)
        \<and> e = (normalizeText_v2 U normalize_NFD category (Some keyPart), strip U featurePart))"

section \<open>Properties\<close>

subsection \<open>The sanitizer leaves no tag\<close>

lemma match_tag_Some_iff:
  "match_tag cs = Some rest \<longleftrightarrow>
     (\<exists>body. body \<noteq> [] \<and> CHR ''>'' \<notin> set body \<and> cs = body @ CHR ''>'' # rest)"
proof
  assume m: "match_tag cs = Some rest"
  let ?P = "\<lambda>c. c \<noteq> CHR ''>''"
  from m have b: "takeWhile ?P cs \<noteq> []" and d: "dropWhile ?P cs \<noteq> []"
    and r: "rest = tl (dropWhile ?P cs)"
    by (simp_all add: match_tag_def Let_def split: if_splits)
  from d have "hd (dropWhile ?P cs) = CHR ''>''"
    using hd_dropWhile [of ?P cs] by simp
  with d r have "dropWhile ?P cs = CHR ''>'' # rest"
    by (cases "dropWhile ?P cs") simp_all
  then have "cs = takeWhile ?P cs @ CHR ''>'' # rest"
    using takeWhile_dropWhile_id [of ?P cs] by simp
  moreover have "CHR ''>'' \<notin> set (takeWhile ?P cs)"
    using set_takeWhileD by fastforce
  ultimately show "\<exists>body. body \<noteq> [] \<and> CHR ''>'' \<notin> set body \<and> cs = body @ CHR ''>'' # rest"
    using b by blast
next
  assume "\<exists>body. body \<noteq> [] \<and> CHR ''>'' \<notin> set body \<and> cs = body @ CHR ''>'' # rest"
  then obtain body where b: "body \<noteq> []" "CHR ''>'' \<notin> set body" "cs = body @ CHR ''>'' # rest"
    by blast
  have all: "\<And>x. x \<in> set body \<Longrightarrow> x \<noteq> CHR ''>''" using b(2) by auto
  have "takeWhile (\<lambda>c. c \<noteq> CHR ''>'') cs = body"
    unfolding b(3) using all by simp
  moreover have "dropWhile (\<lambda>c. c \<noteq> CHR ''>'') cs = CHR ''>'' # rest"
    unfolding b(3) using all by simp
  ultimately show "match_tag cs = Some rest"
    using b(1) by (simp add: match_tag_def Let_def)
qed

lemma match_tag_None_iff:
  "match_tag cs = None \<longleftrightarrow> (cs = [] \<or> hd cs = CHR ''>'' \<or> CHR ''>'' \<notin> set cs)"
proof -
  let ?P = "\<lambda>c. c \<noteq> CHR ''>''"
  have t: "takeWhile ?P cs = [] \<longleftrightarrow> cs = [] \<or> hd cs = CHR ''>''"
    by (cases cs) auto
  have d: "dropWhile ?P cs = [] \<longleftrightarrow> CHR ''>'' \<notin> set cs"
    by auto
  show ?thesis
    using t d by (auto simp: match_tag_def Let_def)
qed

lemma tag_at_iff:
  "tag_at s \<longleftrightarrow>
     (\<exists>body post. s = CHR ''<'' # body @ CHR ''>'' # post \<and> body \<noteq> [] \<and> CHR ''>'' \<notin> set body)"
proof (cases s)
  case Nil
  then show ?thesis by (simp add: tag_at_def)
next
  case (Cons c cs)
  have "match_tag cs \<noteq> None \<longleftrightarrow> (\<exists>rest. match_tag cs = Some rest)" by auto
  then show ?thesis
    unfolding Cons by (auto simp: tag_at_def match_tag_Some_iff)
qed

text \<open>\<open>has_tag\<close> decides whether some part of a text has the shape of a tag.\<close>

lemma has_tag_iff:
  "has_tag s \<longleftrightarrow>
     (\<exists>pre body post. s = pre @ CHR ''<'' # body @ CHR ''>'' # post
        \<and> body \<noteq> [] \<and> CHR ''>'' \<notin> set body)"
proof (induction s)
  case Nil
  then show ?case by simp
next
  case (Cons c cs)
  show ?case
  proof
    assume "has_tag (c # cs)"
    then consider "tag_at (c # cs)" | "has_tag cs" by auto
    then show "\<exists>pre body post. c # cs = pre @ CHR ''<'' # body @ CHR ''>'' # post
        \<and> body \<noteq> [] \<and> CHR ''>'' \<notin> set body"
    proof cases
      case 1
      then obtain body post where "c # cs = [] @ CHR ''<'' # body @ CHR ''>'' # post"
        "body \<noteq> []" "CHR ''>'' \<notin> set body"
        unfolding tag_at_iff by auto
      then show ?thesis by blast
    next
      case 2
      then obtain pre body post where "cs = pre @ CHR ''<'' # body @ CHR ''>'' # post"
        "body \<noteq> []" "CHR ''>'' \<notin> set body"
        unfolding Cons.IH by blast
      then have "c # cs = (c # pre) @ CHR ''<'' # body @ CHR ''>'' # post"
        "body \<noteq> []" "CHR ''>'' \<notin> set body" by simp_all
      then show ?thesis by blast
    qed
  next
    assume "\<exists>pre body post. c # cs = pre @ CHR ''<'' # body @ CHR ''>'' # post
        \<and> body \<noteq> [] \<and> CHR ''>'' \<notin> set body"
    then obtain pre body post where e: "c # cs = pre @ CHR ''<'' # body @ CHR ''>'' # post"
        and b: "body \<noteq> []" "CHR ''>'' \<notin> set body" by blast
    show "has_tag (c # cs)"
    proof (cases pre)
      case Nil
      with e b have "tag_at (c # cs)" unfolding tag_at_iff by auto
      then show ?thesis by simp
    next
      case (Cons p pre')
      with e have "cs = pre' @ CHR ''<'' # body @ CHR ''>'' # post" by simp
      with b have "has_tag cs" unfolding Cons.IH by blast
      then show ?thesis by simp
    qed
  qed
qed

lemma set_sub_tags: "set (sub_tags s) \<subseteq> insert (CHR '' '') (set s)"
proof (induction s rule: sub_tags.induct)
  case 1
  then show ?case by simp
next
  case (2 c cs)
  show ?case
  proof (cases "c = CHR ''<''")
    case False
    with 2 show ?thesis by auto
  next
    case True
    show ?thesis
    proof (cases "match_tag cs")
      case None
      with True 2 show ?thesis by auto
    next
      case (Some rest)
      then have "set rest \<subseteq> set cs"
        unfolding match_tag_Some_iff by auto
      with True Some 2 show ?thesis by auto
    qed
  qed
qed

text \<open>Where the scan keeps a \<open><\<close>, the pattern does not match behind it in the output
  either: the next character is still \<open>>\<close>, or no \<open>>\<close> follows at all.\<close>

lemma no_tag_sub_tags: "\<not> has_tag (sub_tags s)"
proof (induction s rule: sub_tags.induct)
  case 1
  then show ?case by simp
next
  case (2 c cs)
  show ?case
  proof (cases "c = CHR ''<''")
    case False
    with 2 show ?thesis by (simp add: tag_at_def)
  next
    case True
    show ?thesis
    proof (cases "match_tag cs")
      case (Some rest)
      with True 2 show ?thesis by (simp add: tag_at_def)
    next
      case None
      have "match_tag (sub_tags cs) = None"
      proof -
        from None consider "cs = []" | "cs \<noteq> []" "hd cs = CHR ''>''" | "CHR ''>'' \<notin> set cs"
          unfolding match_tag_None_iff by blast
        then show ?thesis
        proof cases
          case 1
          then show ?thesis by (simp add: match_tag_None_iff)
        next
          case 2
          then obtain cs' where "cs = CHR ''>'' # cs'" by (cases cs) auto
          then show ?thesis by (simp add: match_tag_None_iff)
        next
          case 3
          then have "CHR ''>'' \<notin> set (sub_tags cs)"
            using set_sub_tags [of cs] by auto
          then show ?thesis by (simp add: match_tag_None_iff)
        qed
      qed
      with True None 2 show ?thesis by (simp add: tag_at_def)
    qed
  qed
qed

lemma strip_decomp: "\<exists>a b. s = a @ strip U s @ b"
proof -
  let ?t = "dropWhile (isspace U) s"
  have 1: "s = takeWhile (isspace U) s @ ?t" by simp
  have "rev ?t = takeWhile (isspace U) (rev ?t) @ dropWhile (isspace U) (rev ?t)" by simp
  then have "?t = rev (dropWhile (isspace U) (rev ?t)) @ rev (takeWhile (isspace U) (rev ?t))"
    by (metis rev_append rev_rev_ident)
  then have "?t = strip U s @ rev (takeWhile (isspace U) (rev ?t))"
    by (simp add: strip_def)
  with 1 have "s = takeWhile (isspace U) s @ strip U s @ rev (takeWhile (isspace U) (rev ?t))"
    by simp
  then show ?thesis by blast
qed

lemma has_tag_infix: "has_tag t \<Longrightarrow> has_tag (a @ t @ b)"
proof -
  assume "has_tag t"
  then obtain pre body post where "t = pre @ CHR ''<'' # body @ CHR ''>'' # post"
    "body \<noteq> []" "CHR ''>'' \<notin> set body"
    unfolding has_tag_iff by blast
  then have "a @ t @ b = (a @ pre) @ CHR ''<'' # body @ CHR ''>'' # (post @ b)"
    "body \<noteq> []" "CHR ''>'' \<notin> set body" by simp_all
  then show ?thesis unfolding has_tag_iff by blast
qed

lemma no_tag_strip_sub_tags: "\<not> has_tag (strip U (sub_tags s))"
proof -
  obtain a b where "sub_tags s = a @ strip U (sub_tags s) @ b"
    using strip_decomp by blast
  then have "has_tag (strip U (sub_tags s)) \<Longrightarrow> has_tag (sub_tags s)"
    using has_tag_infix by metis
  then show ?thesis
    using no_tag_sub_tags by blast
qed

text \<open>
  C7: whatever the input (none, or any text), whatever \<^verbatim>\<open>html.unescape\<close> makes of
  it and whatever counts as white space, the result of cleanLabelText has no part of the shape \<open><\<close>, one or more
  characters other than \<open>>\<close>, \<open>>\<close>: one pass of the substitution leaves no tag
  behind, also on nested or broken markup.
\<close>

theorem cleanLabelText_no_tag:
  "\<not> (\<exists>pre body post.
        cleanLabelText U unescape rawText = pre @ CHR ''<'' # body @ CHR ''>'' # post
        \<and> body \<noteq> [] \<and> CHR ''>'' \<notin> set body)"
proof (cases rawText)
  case None
  then show ?thesis by (simp add: cleanLabelText_def)
next
  case (Some raw)
  have "\<not> has_tag (strip U (sub_tags (unescape raw)))"
    by (rule no_tag_strip_sub_tags)
  then show ?thesis
    unfolding Some has_tag_iff by (simp add: cleanLabelText_def)
qed

text \<open>On nested markup: the text \<open><<a>>b<c<d>>\<close> is cleaned to \<open>>b >\<close>.\<close>

theorem cleanLabelText_no_tag_witness:
  "cleanLabelText ascii_tables (\<lambda>s. s) (Some ''<<a>>b<c<d>>'') = ''>b >''
   \<and> \<not> (\<exists>pre body post.
        cleanLabelText ascii_tables (\<lambda>s. s) (Some ''<<a>>b<c<d>>'') = pre @ CHR ''<'' # body @ CHR ''>'' # post
        \<and> body \<noteq> [] \<and> CHR ''>'' \<notin> set body)"
proof -
  have "cleanLabelText ascii_tables (\<lambda>s. s) (Some ''<<a>>b<c<d>>'') = ''>b >''"
    by code_simp
  then show ?thesis
    using cleanLabelText_no_tag [of ascii_tables "\<lambda>s. s" "Some ''<<a>>b<c<d>>''"] by simp
qed

subsection \<open>Classification and the default values\<close>

lemma startswith_iff: "startswith s p \<longleftrightarrow> (\<exists>post. s = p @ post)"
  by (induction s p rule: startswith.induct) auto

lemma contains_iff: "contains sub s \<longleftrightarrow> (\<exists>pre post. s = pre @ sub @ post)"
proof (induction s)
  case Nil
  then show ?case by auto
next
  case (Cons c cs)
  show ?case
  proof
    assume "contains sub (c # cs)"
    then consider "startswith (c # cs) sub" | "contains sub cs" by auto
    then show "\<exists>pre post. c # cs = pre @ sub @ post"
    proof cases
      case 1
      then obtain post where "c # cs = [] @ sub @ post"
        unfolding startswith_iff by auto
      then show ?thesis by blast
    next
      case 2
      then obtain pre post where "cs = pre @ sub @ post"
        unfolding Cons.IH by blast
      then have "c # cs = (c # pre) @ sub @ post" by simp
      then show ?thesis by blast
    qed
  next
    assume "\<exists>pre post. c # cs = pre @ sub @ post"
    then obtain pre post where e: "c # cs = pre @ sub @ post" by blast
    show "contains sub (c # cs)"
    proof (cases pre)
      case Nil
      with e have "startswith (c # cs) sub" unfolding startswith_iff by auto
      then show ?thesis by simp
    next
      case (Cons p pre')
      with e have "cs = pre' @ sub @ post" by simp
      then have "contains sub cs" unfolding Cons.IH by blast
      then show ?thesis by simp
    qed
  qed
qed

lemma scan_items_eq:
  "scan_items txt t found = found \<union> {feature. \<exists>keyword. (keyword, feature) \<in> set t \<and> contains keyword txt}"
proof (induction t arbitrary: found)
  case Nil
  then show ?case by simp
next
  case (Cons p rest)
  obtain keyword feature where p: "p = (keyword, feature)" by (cases p)
  show ?case
    unfolding p by (auto simp: Cons.IH)
qed

lemma keyword_hits_Cons:
  "keyword_hits t (obj # rest) =
     {feature. \<exists>keyword. (keyword, feature) \<in> set t \<and> contains keyword (norm obj)}
     \<union> keyword_hits t rest"
  unfolding keyword_hits_def contains_iff by auto

lemma keyword_hits_Nil: "keyword_hits t [] = {}"
  by (simp add: keyword_hits_def)

lemma finite_keyword_hits: "finite (keyword_hits t objectList)"
proof (rule finite_subset)
  show "keyword_hits t objectList \<subseteq> snd ` set t"
    unfolding keyword_hits_def by force
  show "finite (snd ` set t)" by simp
qed

lemma scan_objects_eq:
  assumes "md ''algorithms'' = Some ta" "md ''nfrs'' = Some tn"
    "md ''backend'' = Some tb" "md ''integration'' = Some ti"
  shows "scan_objects objectList md (a, n, b, i) =
     Inr (a \<union> keyword_hits ta objectList, n \<union> keyword_hits tn objectList,
          b \<union> keyword_hits tb objectList, i \<union> keyword_hits ti objectList)"
proof (induction objectList arbitrary: a n b i)
  case Nil
  then show ?case by (simp add: keyword_hits_Nil)
next
  case (Cons obj rest)
  show ?case
    using assms
    by (simp add: getitem_def Let_def Cons.IH keyword_hits_Cons Un_assoc scan_items_eq)
qed

text \<open>
  C2: with a backend and an integration table in the dictionary, applyDefaultValues
  raises nothing; an empty backend set becomes the set holding \<open>Hardware\<close> when
  \<open>Hardware\<close> is among the values of the backend table and stays empty otherwise, the
  integration set is treated the same way with \<open>Middleware\<close>, and a set that is not
  empty is returned as it is.
\<close>

theorem applyDefaultValues_fallback:
  assumes "md ''backend'' = Some backendTable" and "md ''integration'' = Some integrationTable"
  shows "applyDefaultValues backs integrs md =
     Inr (if backs = {} \<and> ''Hardware'' \<in> snd ` set backendTable then {''Hardware''} else backs,
          if integrs = {} \<and> ''Middleware'' \<in> snd ` set integrationTable then {''Middleware''}
          else integrs)"
  using assms by (simp add: applyDefaultValues_def getitem_def)

theorem applyDefaultValues_fallback_witness:
  "applyDefaultValues {} {} [''backend'' \<mapsto> [(''gpu'', ''Hardware'')],
                            ''integration'' \<mapsto> [(''rest'', ''Cloud'')]]
     = Inr ({''Hardware''}, {})"
proof -
  let ?md = "[''backend'' \<mapsto> [(''gpu'', ''Hardware'')], ''integration'' \<mapsto> [(''rest'', ''Cloud'')]]"
  have b: "?md ''backend'' = Some [(''gpu'', ''Hardware'')]" by simp
  have i: "?md ''integration'' = Some [(''rest'', ''Cloud'')]" by simp
  show ?thesis
    by (subst applyDefaultValues_fallback [OF b i]) simp
qed

text \<open>
  C1: with the four tables in the dictionary, the scan over the objects raises nothing
  and ends with, for each table, exactly the features of the pairs whose keyword is part
  of the normalized label of some object (before the default values are applied); each
  list that mapIStarObjectsToFeatures returns is sorted, has no repeated feature, and
  holds that set, for backend and integration after the default values.
\<close>

theorem classification:
  assumes "md ''algorithms'' = Some ta" and "md ''nfrs'' = Some tn"
    and "md ''backend'' = Some tb" and "md ''integration'' = Some ti"
  shows "scan_objects objectList md ({}, {}, {}, {}) =
           Inr (keyword_hits ta objectList, keyword_hits tn objectList,
                keyword_hits tb objectList, keyword_hits ti objectList)
     \<and> (\<exists>algos nfrs backs integrs.
           mapIStarObjectsToFeatures objectList md = Inr (algos, nfrs, backs, integrs)
         \<and> sorted algos \<and> distinct algos \<and> set algos = keyword_hits ta objectList
         \<and> sorted nfrs \<and> distinct nfrs \<and> set nfrs = keyword_hits tn objectList
         \<and> sorted backs \<and> distinct backs
         \<and> set backs = (if keyword_hits tb objectList = {} \<and> ''Hardware'' \<in> snd ` set tb
                         then {''Hardware''} else keyword_hits tb objectList)
         \<and> sorted integrs \<and> distinct integrs
         \<and> set integrs = (if keyword_hits ti objectList = {} \<and> ''Middleware'' \<in> snd ` set ti
                           then {''Middleware''} else keyword_hits ti objectList))"
proof -
  have scan: "scan_objects objectList md ({}, {}, {}, {}) =
           Inr (keyword_hits ta objectList, keyword_hits tn objectList,
                keyword_hits tb objectList, keyword_hits ti objectList)"
    using scan_objects_eq [OF assms, of objectList "{}" "{}" "{}" "{}"] by simp
  let ?b = "if keyword_hits tb objectList = {} \<and> ''Hardware'' \<in> snd ` set tb
            then {''Hardware''} else keyword_hits tb objectList"
  let ?i = "if keyword_hits ti objectList = {} \<and> ''Middleware'' \<in> snd ` set ti
            then {''Middleware''} else keyword_hits ti objectList"
  have dflt: "applyDefaultValues (keyword_hits tb objectList) (keyword_hits ti objectList) md
      = Inr (?b, ?i)"
    using assms(3,4) by (simp add: applyDefaultValues_def getitem_def)
  have fb: "finite ?b" and fi: "finite ?i"
    by (simp_all add: finite_keyword_hits)
  have res: "mapIStarObjectsToFeatures objectList md =
      Inr (sorted_list_of_set (keyword_hits ta objectList),
           sorted_list_of_set (keyword_hits tn objectList),
           sorted_list_of_set ?b, sorted_list_of_set ?i)"
    unfolding mapIStarObjectsToFeatures_def scan
    by (simp only: sum.case prod.case dflt)
  have "sorted (sorted_list_of_set ?b)" "distinct (sorted_list_of_set ?b)"
    "set (sorted_list_of_set ?b) = ?b"
    "sorted (sorted_list_of_set ?i)" "distinct (sorted_list_of_set ?i)"
    "set (sorted_list_of_set ?i) = ?i"
    using fb fi by simp_all
  moreover have "sorted (sorted_list_of_set (keyword_hits ta objectList))"
    "distinct (sorted_list_of_set (keyword_hits ta objectList))"
    "set (sorted_list_of_set (keyword_hits ta objectList)) = keyword_hits ta objectList"
    "sorted (sorted_list_of_set (keyword_hits tn objectList))"
    "distinct (sorted_list_of_set (keyword_hits tn objectList))"
    "set (sorted_list_of_set (keyword_hits tn objectList)) = keyword_hits tn objectList"
    by (simp_all add: finite_keyword_hits)
  ultimately show ?thesis
    using scan res by blast
qed

theorem classification_witness:
  "mapIStarObjectsToFeatures
     [\<lparr>otype = ''task'', label = ''Uses AES encryption'', norm = ''uses aes encryption''\<rparr>]
     [''algorithms'' \<mapsto> [(''rsa'', ''RSA''), (''aes'', ''AES'')], ''nfrs'' \<mapsto> [],
      ''backend'' \<mapsto> [(''gpu'', ''Hardware'')], ''integration'' \<mapsto> []]
   = Inr ([''AES''], [], [''Hardware''], [])
   \<and> keyword_hits [(''rsa'', ''RSA''), (''aes'', ''AES'')]
       [\<lparr>otype = ''task'', label = ''Uses AES encryption'', norm = ''uses aes encryption''\<rparr>]
     = {''AES''}"
proof -
  let ?obj = "\<lparr>otype = ''task'', label = ''Uses AES encryption'', norm = ''uses aes encryption''\<rparr>"
  let ?ta = "[(''rsa'', ''RSA''), (''aes'', ''AES'')]"
  let ?tb = "[(''gpu'', ''Hardware'')]"
  let ?md = "[''algorithms'' \<mapsto> ?ta, ''nfrs'' \<mapsto> [],
              ''backend'' \<mapsto> ?tb, ''integration'' \<mapsto> []]"
  have m: "?md ''algorithms'' = Some ?ta" "?md ''nfrs'' = Some []"
    "?md ''backend'' = Some ?tb" "?md ''integration'' = Some []"
    by simp_all
  have run: "scan_objects [?obj] ?md ({}, {}, {}, {}) = Inr ({''AES''}, {}, {}, {})"
    by (simp add: getitem_def Let_def)
  have res: "mapIStarObjectsToFeatures [?obj] ?md = Inr ([''AES''], [], [''Hardware''], [])"
    unfolding mapIStarObjectsToFeatures_def run
    by (simp add: applyDefaultValues_def getitem_def)
  have "scan_objects [?obj] ?md ({}, {}, {}, {}) =
      Inr (keyword_hits ?ta [?obj], keyword_hits [] [?obj],
           keyword_hits ?tb [?obj], keyword_hits [] [?obj])"
    by (rule conjunct1 [OF classification [OF m]])
  then have "Inr ({''AES''}, {}, {}, {}) =
      (Inr (keyword_hits ?ta [?obj], keyword_hits [] [?obj],
           keyword_hits ?tb [?obj], keyword_hits [] [?obj])
       :: error + (string set \<times> string set \<times> string set \<times> string set))"
    unfolding run .
  then have "keyword_hits ?ta [?obj] = {''AES''}"
    by (simp only: sum.inject prod.inject)
  with res show ?thesis by simp
qed

subsection \<open>The rendered text\<close>

lemma join_append:
  "xs \<noteq> [] \<Longrightarrow> ys \<noteq> [] \<Longrightarrow> join sep (xs @ ys) = join sep xs @ sep @ join sep ys"
proof (induction sep xs rule: join.induct)
  case (1 sep)
  then show ?case by simp
next
  case (2 sep x)
  then show ?case by (cases ys) simp_all
next
  case (3 sep x y zs)
  then show ?case by simp
qed

lemma join_snoc: "xs \<noteq> [] \<Longrightarrow> join sep (xs @ [x]) = join sep xs @ sep @ x"
  by (simp add: join_append)

lemma replicate_indent:
  "replicate 2 c = [c, c]" "replicate 4 c = [c, c, c, c]" "replicate 6 c = [c, c, c, c, c, c]"
  by (simp_all add: eval_nat_numeral)

lemma constraintLines_Nil_iff:
  "constraintLines algos nfrs = [] \<longleftrightarrow> algos = [] \<or> ''Precision'' \<notin> set nfrs"
  by (simp add: constraintLines_def)

lemma featureLines_render:
  "featureLines rootFeature algos nfrs backs integrs =
     render 0 (featureTree rootFeature algos nfrs backs integrs) @ [[]]"
  by (simp add: featureLines_def featureTree_def group_def comp_def replicate_indent)

lemma constraintLines_render:
  "constraintLines algos nfrs =
     (if algos \<noteq> [] \<and> ''Precision'' \<in> set nfrs
      then render 0 (Block ''constraints'' (map (\<lambda>algo. Leaf (algo @ '' requires Precision'')) algos))
      else [])"
  by (simp add: constraintLines_def comp_def replicate_indent)

lemma render_nonempty: "render d t \<noteq> []"
  by (cases t) simp_all

lemma buildUvlModel_plain:
  assumes "algos = [] \<or> ''Precision'' \<notin> set nfrs"
  shows "buildUvlModel rootFeature algos nfrs backs integrs =
     join newline (render 0 (featureTree rootFeature algos nfrs backs integrs)) @ newline"
proof -
  have "constraintLines algos nfrs = []"
    using assms by (simp add: constraintLines_Nil_iff)
  then show ?thesis
    by (simp add: buildUvlModel_def featureLines_render join_snoc render_nonempty)
qed

lemma buildUvlModel_constrained:
  assumes "algos \<noteq> []" and "''Precision'' \<in> set nfrs"
  shows "buildUvlModel rootFeature algos nfrs backs integrs =
     join newline (featureLines rootFeature algos nfrs backs integrs) @ newline
     @ join newline (''constraints {''
          # map (\<lambda>algo. ''  '' @ algo @ '' requires Precision'') algos) @ newline @ ''}''"
proof -
  have c: "constraintLines algos nfrs =
      (''constraints {'' # map (\<lambda>algo. ''  '' @ algo @ '' requires Precision'') algos) @ [''}'']"
    using assms by (simp add: constraintLines_def)
  have f: "featureLines rootFeature algos nfrs backs integrs \<noteq> []"
    by (simp add: featureLines_def)
  show ?thesis
    unfolding buildUvlModel_def c
    by (simp only: join_append [OF f] join_snoc append_assoc list.distinct
        append_is_Nil_conv simp_thms)
qed

text \<open>
  C6: the lines behind the empty separator line are a constraints block exactly when the
  list of algorithms is not empty and \<open>Precision\<close> is among the NFRs. The block then
  is the line \<open>constraints {\<close>, one line \<open><algo> requires Precision\<close> per algorithm
  in the order of the list, and the closing brace; the text returned is the feature
  block followed, in that case only, by a line break and the block.
\<close>

theorem constraints_block:
  "(constraintLines algos nfrs \<noteq> [] \<longleftrightarrow> algos \<noteq> [] \<and> ''Precision'' \<in> set nfrs)
   \<and> (algos \<noteq> [] \<and> ''Precision'' \<in> set nfrs \<longrightarrow>
        length (constraintLines algos nfrs) = length algos + 2
      \<and> hd (constraintLines algos nfrs) = ''constraints {''
      \<and> last (constraintLines algos nfrs) = ''}''
      \<and> (\<forall>i < length algos.
            constraintLines algos nfrs ! Suc i = ''  '' @ algos ! i @ '' requires Precision''))
   \<and> buildUvlModel rootFeature algos nfrs backs integrs =
       join newline (featureLines rootFeature algos nfrs backs integrs)
       @ (if algos \<noteq> [] \<and> ''Precision'' \<in> set nfrs
          then newline @ join newline (constraintLines algos nfrs) else [])"
proof (cases "algos \<noteq> [] \<and> ''Precision'' \<in> set nfrs")
  case False
  then have c: "constraintLines algos nfrs = []"
    by (simp add: constraintLines_def)
  show ?thesis
    using False by (auto simp: c buildUvlModel_def)
next
  case True
  then have c: "constraintLines algos nfrs =
      ''constraints {'' # map (\<lambda>algo. ''  '' @ algo @ '' requires Precision'') algos @ [''}'']"
    by (simp add: constraintLines_def)
  have f: "featureLines rootFeature algos nfrs backs integrs \<noteq> []"
    by (simp add: featureLines_def)
  have n: "\<forall>i < length algos.
      constraintLines algos nfrs ! Suc i = ''  '' @ algos ! i @ '' requires Precision''"
    unfolding c by (simp add: nth_append)
  have b: "buildUvlModel rootFeature algos nfrs backs integrs =
       join newline (featureLines rootFeature algos nfrs backs integrs)
       @ newline @ join newline (constraintLines algos nfrs)"
    unfolding buildUvlModel_def by (rule join_append [OF f]) (simp add: c)
  show ?thesis
    using True n b by (simp add: c)
qed

theorem constraints_block_witness:
  "constraintLines [''A'', ''B''] [''Precision''] =
     [''constraints {'', ''  A requires Precision'', ''  B requires Precision'', ''}'']
   \<and> constraintLines [''A'', ''B''] [''Speed''] = []
   \<and> constraintLines [] [''Precision''] = []"
proof -
  have 1: "constraintLines [] [''Precision''] = []"
    using constraints_block [of "[]" "[''Precision'']"] by simp
  have 2: "constraintLines [''A'', ''B''] [''Speed''] = []"
    using constraints_block [of "[''A'', ''B'']" "[''Speed'']"] by simp
  have 3: "constraintLines [''A'', ''B''] [''Precision''] =
     [''constraints {'', ''  A requires Precision'', ''  B requires Precision'', ''}'']"
    by (simp add: constraintLines_def)
  from 1 2 3 show ?thesis by simp
qed

text \<open>
  C9 as stated fails: with a constraints block the text ends with the closing brace of
  that block, since the lines are joined by line breaks and none follows the last line.
\<close>

theorem trailing_newline_counterexample:
  "last (buildUvlModel ''Test'' [''A''] [''Precision''] [] []) = CHR ''}''
   \<and> last (buildUvlModel ''Test'' [''A''] [''Precision''] [] []) \<noteq> CHR 0x0A"
  by (simp add: buildUvlModel_def featureLines_def constraintLines_def newline_def)

lemma last_join_snoc: "xs \<noteq> [] \<Longrightarrow> x \<noteq> [] \<Longrightarrow> last (join sep (xs @ [x])) = last x"
  by (simp add: join_snoc)

text \<open>
  C9, amended: the feature block is the tree of the features printed with two more
  spaces of indentation per nesting level, followed by the empty separator line, and the
  constraints block, when there is one, is printed the same way from the left margin.
  Without a constraints block the text is the printed tree and one line break after the
  closing brace of the root, so it ends with a line break; the text ends with a line
  break exactly when no constraints block is appended, and with the closing brace of the
  block otherwise.
\<close>

theorem layout:
  "featureLines rootFeature algos nfrs backs integrs =
     render 0 (featureTree rootFeature algos nfrs backs integrs) @ [[]]
   \<and> constraintLines algos nfrs =
     (if algos \<noteq> [] \<and> ''Precision'' \<in> set nfrs
      then render 0 (Block ''constraints'' (map (\<lambda>algo. Leaf (algo @ '' requires Precision'')) algos))
      else [])
   \<and> (algos = [] \<or> ''Precision'' \<notin> set nfrs \<longrightarrow>
        buildUvlModel rootFeature algos nfrs backs integrs =
          join newline (render 0 (featureTree rootFeature algos nfrs backs integrs)) @ newline)
   \<and> (last (buildUvlModel rootFeature algos nfrs backs integrs) = CHR 0x0A
        \<longleftrightarrow> algos = [] \<or> ''Precision'' \<notin> set nfrs)
   \<and> (algos \<noteq> [] \<and> ''Precision'' \<in> set nfrs \<longrightarrow>
        last (buildUvlModel rootFeature algos nfrs backs integrs) = CHR ''}'')"
proof -
  have plain: "last (buildUvlModel rootFeature algos nfrs backs integrs) = CHR 0x0A"
    if "algos = [] \<or> ''Precision'' \<notin> set nfrs"
    using buildUvlModel_plain [OF that] by (simp add: newline_def)
  have constrained: "last (buildUvlModel rootFeature algos nfrs backs integrs) = CHR ''}''"
    if "algos \<noteq> []" "''Precision'' \<in> set nfrs"
    using buildUvlModel_constrained [OF that] by simp
  have "CHR ''}'' \<noteq> CHR 0x0A" by simp
  with plain constrained
  have iff: "last (buildUvlModel rootFeature algos nfrs backs integrs) = CHR 0x0A
        \<longleftrightarrow> algos = [] \<or> ''Precision'' \<notin> set nfrs"
    by metis
  show ?thesis
    using featureLines_render constraintLines_render buildUvlModel_plain iff constrained
    by blast
qed

theorem layout_witness:
  "buildUvlModel ''Test'' [''A''] [''Speed''] [] [] =
     ''features {'' @ newline @ ''  Test {'' @ newline @ ''    Algorithm {'' @ newline
     @ ''      A'' @ newline @ ''    }'' @ newline @ ''    Speed'' @ newline
     @ ''  }'' @ newline @ ''}'' @ newline"
proof -
  have "[''A''] = [] \<or> ''Precision'' \<notin> set [''Speed'']" by simp
  with layout [of "''Test''" "[''A'']" "[''Speed'']" "[]" "[]"]
  have "buildUvlModel ''Test'' [''A''] [''Speed''] [] [] =
     join newline (render 0 (featureTree ''Test'' [''A''] [''Speed''] [] [])) @ newline"
    by blast
  then show ?thesis
    by (simp add: featureTree_def group_def replicate_indent)
qed

subsection \<open>The identifier formatters\<close>

lemma clean_characters_eq:
  "clean_characters U t acc =
     acc @ map (\<lambda>c. if isalnum_char U c \<or> c = CHR '' '' \<or> c = CHR ''_'' then c
                     else CHR '' '') t"
  by (induction t arbitrary: acc) simp_all

lemma collect_words_eq:
  "collect_words U ws acc = acc @ map (capitalize U) (filter (isalnum U) ws)"
  by (induction ws arbitrary: acc) simp_all

lemma split_ws_Nil: "split_ws U [] = []"
  by (simp add: split_ws.simps)

text \<open>
  C3, amended: whatever the tables of the interpreter are, convertTextToUvlIdentifier of
  \<^verbatim>\<open>istar-uvl.py\<close> is the formatter of the specification: it returns \<open>RootGoal\<close> for
  no input and for the empty text, and otherwise replaces every character that is not
  alphanumeric, a space or an underscore by a space, replaces the underscores by spaces,
  splits at white space, keeps the alphanumeric words, capitalizes and concatenates
  them, with \<open>RootGoal\<close> when no word is left. formatRootFeatureName of
  \<^verbatim>\<open>iStar-UVL.py\<close> returns \<open>RootGoal\<close> for no input and for the empty text too, but
  replaces no punctuation: it removes the tags, normalizes the text, replaces the
  underscores, splits at white space, keeps only the words that are alphanumeric as they
  stand, capitalizes and concatenates them, with \<open>RootGoal\<close> when the result is empty.
\<close>

theorem identifier_formatters:
  "convertTextToUvlIdentifier U inputText = toIdentifier_spec U inputText
   \<and> formatRootFeatureName U unescape unidecode inputText =
       (case inputText of
          None \<Rightarrow> ''RootGoal''
        | Some t \<Rightarrow>
            if t = [] then ''RootGoal''
            else
              (let kept = filter (isalnum U)
                     (split_ws U (replace_underscore
                        (normalizeText_v1 U unidecode (Some (cleanLabelText U unescape (Some t))))));
                   identifier = concat (map (capitalize U) kept)
               in if identifier = [] then ''RootGoal'' else identifier))"
proof (cases inputText)
  case None
  then show ?thesis
    by (simp add: convertTextToUvlIdentifier_def toIdentifier_spec_def formatRootFeatureName_def)
next
  case (Some t)
  have 1: "convertTextToUvlIdentifier U (Some t) = toIdentifier_spec U (Some t)"
    by (cases "t = []")
      (simp_all add: convertTextToUvlIdentifier_def toIdentifier_spec_def Let_def
        clean_characters_eq collect_words_eq replace_underscore_def split_ws_Nil)
  have 2: "formatRootFeatureName U unescape unidecode (Some t) =
       (if t = [] then ''RootGoal''
        else
          (let kept = filter (isalnum U)
                 (split_ws U (replace_underscore
                    (normalizeText_v1 U unidecode (Some (cleanLabelText U unescape (Some t))))));
               identifier = concat (map (capitalize U) kept)
           in if identifier = [] then ''RootGoal'' else identifier))"
    unfolding formatRootFeatureName_def Let_def collect_words_eq
    by (simp only: option.case append_Nil)
  from 1 2 show ?thesis unfolding Some by simp
qed

text \<open>On three texts of ASCII characters.\<close>

theorem identifier_formatters_witness:
  "convertTextToUvlIdentifier ascii_tables (Some ''protein-folding'') = ''ProteinFolding''
   \<and> convertTextToUvlIdentifier ascii_tables (Some ''!!!'') = ''RootGoal''
   \<and> convertTextToUvlIdentifier ascii_tables (Some ''Chemical_Reaction 2'')
       = ''ChemicalReaction2''"
proof -
  have s1: "toIdentifier_spec ascii_tables (Some ''protein-folding'') = ''ProteinFolding''"
    by code_simp
  have s2: "toIdentifier_spec ascii_tables (Some ''!!!'') = ''RootGoal''"
    by code_simp
  have s3: "toIdentifier_spec ascii_tables (Some ''Chemical_Reaction 2'') = ''ChemicalReaction2''"
    by code_simp
  have c: "convertTextToUvlIdentifier ascii_tables x = toIdentifier_spec ascii_tables x" for x
    by (rule conjunct1 [OF identifier_formatters])
  show ?thesis
    unfolding c s1 s2 s3 by simp
qed

text \<open>
  C3 as stated fails for formatRootFeatureName: on \<open>protein-folding\<close>, a text on which
  \<^verbatim>\<open>html.unescape\<close> and \<^verbatim>\<open>unidecode\<close> return their argument, the only word is
  \<open>protein-folding\<close> itself, which is not alphanumeric.
\<close>

theorem formatRootFeatureName_counterexample:
  "formatRootFeatureName ascii_tables (\<lambda>s. s) (\<lambda>s. s) (Some ''protein-folding'') = ''RootGoal''
   \<and> toIdentifier_spec ascii_tables (Some ''protein-folding'') = ''ProteinFolding''"
  by code_simp

subsection \<open>Normalizing twice\<close>

lemma split_ws_unfold:
  "split_ws U s =
     (case dropWhile (isspace U) s of
        [] \<Rightarrow> []
      | c # cs \<Rightarrow> takeWhile (\<lambda>x. \<not> isspace U x) (c # cs)
                 # split_ws U (dropWhile (\<lambda>x. \<not> isspace U x) (c # cs)))"
  by (rule split_ws.simps)

lemma split_ws_words:
  "w \<in> set (split_ws U s) \<Longrightarrow> w \<noteq> [] \<and> (\<forall>c\<in>set w. \<not> isspace U c) \<and> set w \<subseteq> set s"
proof (induction U s arbitrary: w rule: split_ws.induct)
  case (1 U s)
  show ?case
  proof (cases "dropWhile (isspace U) s")
    case Nil
    have "split_ws U s = []" by (simp only: split_ws_unfold [of U s] Nil list.case)
    with "1.prems" show ?thesis by simp
  next
    case (Cons c cs)
    let ?P = "\<lambda>x. \<not> isspace U x"
    have sp: "split_ws U s = takeWhile ?P (c # cs) # split_ws U (dropWhile ?P (c # cs))"
      by (simp only: split_ws_unfold [of U s] Cons list.case)
    have nc: "\<not> isspace U c"
      using hd_dropWhile [of "isspace U" s] Cons by simp
    have sub: "set (c # cs) \<subseteq> set s"
      using set_dropWhileD [of _ "isspace U" s] Cons by auto
    from "1.prems" sp consider "w = takeWhile ?P (c # cs)"
      | "w \<in> set (split_ws U (dropWhile ?P (c # cs)))" by auto
    then show ?thesis
    proof cases
      case 1
      have "w \<noteq> []" using 1 nc by simp
      moreover have "\<forall>x\<in>set w. \<not> isspace U x"
        unfolding 1 using set_takeWhileD [of _ ?P "c # cs"] by blast
      moreover have "set w \<subseteq> set (c # cs)"
        unfolding 1 using set_takeWhileD [of _ ?P "c # cs"] by blast
      ultimately show ?thesis using sub by blast
    next
      case 2
      from "1.IH" [OF Cons 2]
      have "w \<noteq> []" "\<forall>x\<in>set w. \<not> isspace U x" "set w \<subseteq> set (dropWhile ?P (c # cs))"
        by blast+
      moreover have "set (dropWhile ?P (c # cs)) \<subseteq> set (c # cs)"
        using set_dropWhileD [of _ ?P "c # cs"] by blast
      ultimately show ?thesis using sub by blast
    qed
  qed
qed

lemma split_ws_dropWhile: "split_ws U (dropWhile (isspace U) s) = split_ws U s"
  using split_ws_unfold [of U "dropWhile (isspace U) s"] split_ws_unfold [of U s]
  by (simp only: dropWhile_idem)

lemma split_ws_space_Cons:
  assumes isspace_space: "isspace U (CHR '' '')"
  shows "split_ws U (CHR '' '' # s) = split_ws U s"
proof -
  have "split_ws U (dropWhile (isspace U) (CHR '' '' # s)) = split_ws U (CHR '' '' # s)"
    by (rule split_ws_dropWhile)
  moreover have "dropWhile (isspace U) (CHR '' '' # s) = dropWhile (isspace U) s"
    by (simp add: isspace_space)
  ultimately show ?thesis
    by (simp add: split_ws_dropWhile)
qed

lemma split_ws_word_append:
  assumes "w \<noteq> []" and "\<forall>c\<in>set w. \<not> isspace U c" and "rest = [] \<or> isspace U (hd rest)"
  shows "split_ws U (w @ rest) = w # split_ws U rest"
proof -
  let ?P = "\<lambda>x. \<not> isspace U x"
  obtain c cs where w: "w = c # cs" using assms(1) by (cases w) auto
  have d: "dropWhile (isspace U) (w @ rest) = c # (cs @ rest)"
    using assms(2) by (simp add: w)
  have tr: "takeWhile ?P rest = []" and dr: "dropWhile ?P rest = rest"
    using assms(3) by (cases rest; simp)+
  have t: "takeWhile ?P (c # (cs @ rest)) = w"
    using assms(2) tr by (simp add: w)
  have dd: "dropWhile ?P (c # (cs @ rest)) = rest"
    using assms(2) dr by (simp add: w)
  show ?thesis
    by (simp add: split_ws_unfold [of U "w @ rest"] d t dd del: takeWhile.simps dropWhile.simps)
qed

lemma split_ws_join:
  assumes isspace_space: "isspace U (CHR '' '')"
  shows "\<forall>w\<in>set ws. w \<noteq> [] \<and> (\<forall>c\<in>set w. \<not> isspace U c)
     \<Longrightarrow> split_ws U (join '' '' ws) = ws"
proof (induction ws rule: induct_list012)
  case 1
  then show ?case by (simp add: split_ws_Nil)
next
  case (2 x)
  then show ?case
    using split_ws_word_append [where w = x and rest = "[]" and U = U] by (simp add: split_ws_Nil)
next
  case (3 x y zs)
  have "split_ws U (x @ CHR '' '' # join '' '' (y # zs)) = x # split_ws U (CHR '' '' # join '' '' (y # zs))"
    using 3 by (intro split_ws_word_append) (simp_all add: isspace_space)
  then show ?case
    using 3 by (simp add: split_ws_space_Cons [OF isspace_space])
qed

lemma strip_id:
  "s = [] \<or> (\<not> isspace U (hd s) \<and> \<not> isspace U (last s)) \<Longrightarrow> strip U s = s"
proof (cases s)
  case Nil
  then show ?thesis by (simp add: strip_def)
next
  case (Cons c cs)
  assume "s = [] \<or> (\<not> isspace U (hd s) \<and> \<not> isspace U (last s))"
  with Cons have h: "\<not> isspace U c" and l: "\<not> isspace U (last s)" by simp_all
  have 1: "dropWhile (isspace U) s = s" using h Cons by simp
  have "rev (butlast s @ [last s]) = last s # rev (butlast s)" by simp
  then have r: "rev s = last s # rev (butlast s)" using Cons by simp
  have 2: "dropWhile (isspace U) (rev s) = rev s"
    using l by (simp only: r dropWhile.simps if_False)
  show ?thesis by (simp add: strip_def 1 2)
qed

lemma join_ends:
  "ws \<noteq> [] \<Longrightarrow> \<forall>w\<in>set ws. w \<noteq> [] \<Longrightarrow>
     join sep ws \<noteq> [] \<and> hd (join sep ws) = hd (hd ws) \<and> last (join sep ws) = last (last ws)"
proof (induction ws rule: induct_list012)
  case 1
  then show ?case by simp
next
  case (2 x)
  then show ?case by simp
next
  case (3 x y zs)
  then show ?case by simp
qed

lemma set_join: "set (join sep ws) \<subseteq> set sep \<union> \<Union> (set ` set ws)"
  by (induction ws rule: induct_list012) auto

lemma strip_join_split_ws: "strip U (join '' '' (split_ws U t)) = join '' '' (split_ws U t)"
proof (cases "split_ws U t = []")
  case True
  then show ?thesis by (simp add: strip_def)
next
  case False
  have good: "\<forall>w\<in>set (split_ws U t). w \<noteq> [] \<and> (\<forall>c\<in>set w. \<not> isspace U c)"
    using split_ws_words by blast
  then have e: "join '' '' (split_ws U t) \<noteq> []"
    "hd (join '' '' (split_ws U t)) = hd (hd (split_ws U t))"
    "last (join '' '' (split_ws U t)) = last (last (split_ws U t))"
    using join_ends [OF False, of "'' ''"] by blast+
  have h: "hd (split_ws U t) \<in> set (split_ws U t)" and l: "last (split_ws U t) \<in> set (split_ws U t)"
    using False by simp_all
  have "hd (split_ws U t) \<noteq> []" and hh: "\<forall>c\<in>set (hd (split_ws U t)). \<not> isspace U c"
    using good h by blast+
  then have "hd (hd (split_ws U t)) \<in> set (hd (split_ws U t))" by simp
  then have 1: "\<not> isspace U (hd (hd (split_ws U t)))" using hh by blast
  have "last (split_ws U t) \<noteq> []" and ll: "\<forall>c\<in>set (last (split_ws U t)). \<not> isspace U c"
    using good l by blast+
  then have "last (last (split_ws U t)) \<in> set (last (split_ws U t))" by simp
  then have 2: "\<not> isspace U (last (last (split_ws U t)))" using ll by blast
  from 1 2 show ?thesis
    using e by (intro strip_id) simp
qed

lemma split_ws_join_split_ws:
  assumes "isspace U (CHR '' '')"
  shows "split_ws U (join '' '' (split_ws U t)) = split_ws U t"
  using split_ws_words by (intro split_ws_join [OF assms]) blast

lemma set_strip: "set (strip U s) \<subseteq> set s"
proof -
  obtain a b where e: "s = a @ strip U s @ b" using strip_decomp by blast
  show ?thesis
    by (rule ssubst [where P = "\<lambda>x. set (strip U s) \<subseteq> set x", OF e]) auto
qed

lemma drop_marks_eq:
  "drop_marks category t acc = acc @ filter (\<lambda>c. category c \<noteq> ''Mn'') t"
  by (induction t arbitrary: acc) simp_all


text \<open>
  What idempotence of normalizeText rests on. The result is a list of words joined by
  single spaces; given that the space counts as white space, normalizing it again
  returns it whenever the library functions of the second pass leave it as it is. For
  \<^verbatim>\<open>istar-uvl.py\<close> these are \<^verbatim>\<open>lower\<close>, the canonical decomposition and the removal of
  the marks, which the first pass has already applied in this order; for
  \<^verbatim>\<open>iStar-UVL.py\<close> they are \<^verbatim>\<open>lower\<close> and \<^verbatim>\<open>unidecode\<close>, where the first pass has
  applied \<^verbatim>\<open>unidecode\<close> after \<^verbatim>\<open>lower\<close>.
\<close>

lemma normalizeText_result:
  "\<exists>t. normalizeText_v1 U unidecode inputText = join '' '' (split_ws U t)"
  "\<exists>t. normalizeText_v2 U normalize_NFD category inputText = join '' '' (split_ws U t)"
proof -
  have e: "[] = join '' '' (split_ws U [])" by (simp add: split_ws_Nil)
  show "\<exists>t. normalizeText_v1 U unidecode inputText = join '' '' (split_ws U t)"
    using e by (cases inputText) (auto simp: normalizeText_v1_def)
  show "\<exists>t. normalizeText_v2 U normalize_NFD category inputText = join '' '' (split_ws U t)"
    using e by (cases inputText) (auto simp: normalizeText_v2_def)
qed

lemma normalizeText_v2_fixed:
  assumes sp: "isspace U (CHR '' '')"
    and r: "r = normalizeText_v2 U normalize_NFD category inputText"
    and l: "lower U r = r"
    and n: "normalize_NFD r = r"
    and m: "\<forall>c\<in>set r. category c \<noteq> ''Mn''"
  shows "normalizeText_v2 U normalize_NFD category (Some r) = r"
proof -
  obtain t where t: "r = join '' '' (split_ws U t)"
    using normalizeText_result(2) r by metis
  have s: "strip U r = r" unfolding t by (rule strip_join_split_ws)
  have f: "drop_marks category r [] = r"
    using m unfolding drop_marks_eq by (simp add: filter_id_conv)
  have j: "join '' '' (split_ws U r) = r"
    unfolding t by (simp add: split_ws_join_split_ws [OF sp])
  show ?thesis
    by (simp add: normalizeText_v2_def s l n f j)
qed

lemma normalizeText_v1_fixed:
  assumes sp: "isspace U (CHR '' '')"
    and r: "r = normalizeText_v1 U unidecode inputText"
    and l: "lower U r = r"
    and u: "unidecode r = r"
  shows "normalizeText_v1 U unidecode (Some r) = r"
proof -
  obtain t where t: "r = join '' '' (split_ws U t)"
    using normalizeText_result(1) r by metis
  have s: "strip U r = r" unfolding t by (rule strip_join_split_ws)
  have j: "join '' '' (split_ws U r) = r"
    unfolding t by (simp add: split_ws_join_split_ws [OF sp])
  show ?thesis
    by (simp add: normalizeText_v1_def s l u j)
qed

text \<open>
  C8: normalizeText of \<^verbatim>\<open>iStar-UVL.py\<close> is not idempotent, and its result is not always
  in lower case, as its docstring says it is: \<^verbatim>\<open>unidecode\<close> runs after the text has
  been put in lower case, and what it writes for a character can be in upper case. The
  section sign has no case and is no white space; it is normalized to \<open>SS\<close>, and
  \<open>SS\<close> is normalized to \<open>ss\<close>.
\<close>

theorem normalizeText_v1_section_sign:
  "normalizeText_v1 ascii_tables unidecode_section_sign (Some [CHR 0xA7]) = ''SS''
   \<and> normalizeText_v1 ascii_tables unidecode_section_sign
       (Some (normalizeText_v1 ascii_tables unidecode_section_sign (Some [CHR 0xA7]))) = ''ss''"
  by code_simp

subsection \<open>Reading the mapping files\<close>

lemma contains_length: "contains sub s \<Longrightarrow> length sub \<le> length s"
  unfolding contains_iff by auto

lemma startswith_append: "startswith s p \<Longrightarrow> startswith (s @ t) p"
  unfolding startswith_iff by auto

lemma startswith_prefix:
  assumes "startswith (a @ butlast p) p" and "p \<noteq> []"
  shows "startswith (a @ p @ b) p"
proof -
  obtain post where e: "a @ butlast p = p @ post"
    using assms(1) unfolding startswith_iff by blast
  have "a @ p @ b = a @ (butlast p @ [last p]) @ b"
    using assms(2) by simp
  also have "\<dots> = (a @ butlast p) @ last p # b" by simp
  also have "\<dots> = p @ (post @ last p # b)" unfolding e by simp
  finally show ?thesis unfolding startswith_iff by blast
qed

lemma contains_rev: "contains x t \<Longrightarrow> contains (rev x) (rev t)"
proof -
  assume "contains x t"
  then obtain pre post where "t = pre @ x @ post" unfolding contains_iff by blast
  then have "rev t = rev post @ rev x @ rev pre" by simp
  then show ?thesis unfolding contains_iff by blast
qed

text \<open>Splitting once at a separator that occurs: the two parts are the text before and
  the text behind the first occurrence.\<close>

lemma split1_contains:
  assumes "sep \<noteq> []"
  shows "contains sep s \<Longrightarrow>
     \<exists>k f. split1 sep s = [k, f] \<and> s = k @ sep @ f \<and> \<not> contains sep (k @ butlast sep)"
proof (induction s)
  case Nil
  then show ?case using assms by simp
next
  case (Cons c cs)
  show ?case
  proof (cases "startswith (c # cs) sep")
    case True
    then obtain post where p: "c # cs = sep @ post"
      unfolding startswith_iff by blast
    have "length (butlast sep) < length sep"
      using assms by (cases sep rule: rev_cases) simp_all
    then have n: "\<not> contains sep ([] @ butlast sep)"
      using contains_length [of sep "butlast sep"] by auto
    have "split1 sep (c # cs) = [[], drop (length sep) (c # cs)]"
      using True by simp
    moreover have "drop (length sep) (c # cs) = post"
      unfolding p by simp
    moreover have "c # cs = [] @ sep @ post"
      using p by simp
    ultimately show ?thesis
      using n by blast
  next
    case False
    with Cons.prems have "contains sep cs" by simp
    from Cons.IH [OF this] obtain k f where
      kf: "split1 sep cs = [k, f]" "cs = k @ sep @ f" "\<not> contains sep (k @ butlast sep)"
      by blast
    have "\<not> startswith (c # k @ butlast sep) sep"
    proof
      assume "startswith (c # k @ butlast sep) sep"
      then have "startswith ((c # k) @ sep @ f) sep"
        using startswith_prefix [of "c # k" sep f] assms by simp
      with False kf(2) show False by simp
    qed
    then have "\<not> contains sep ((c # k) @ butlast sep)"
      using kf(3) by simp
    moreover have "split1 sep (c # cs) = [c # k, f]"
      using False kf(1) by simp
    moreover have "c # cs = (c # k) @ sep @ f"
      using kf(2) by simp
    ultimately show ?thesis by blast
  qed
qed

lemma split1_arrow:
  "contains ''=>'' s \<Longrightarrow>
     \<exists>k f. split1 ''=>'' s = [k, f] \<and> s = k @ ''=>'' @ f \<and> \<not> contains ''=>'' (k @ ''='')"
  using split1_contains [of "''=>''" s] by simp

lemma contains_strip: "contains sub (strip U s) \<Longrightarrow> contains sub s"
proof -
  assume "contains sub (strip U s)"
  then obtain pre post where "strip U s = pre @ sub @ post"
    unfolding contains_iff by blast
  moreover obtain a b where "s = a @ strip U s @ b"
    using strip_decomp by blast
  ultimately have "s = (a @ pre) @ sub @ (post @ b)" by simp
  then show ?thesis unfolding contains_iff by blast
qed

lemma step_v2_skip:
  assumes "strip U line = [] \<or> startswith (strip U line) ''#'' \<or> \<not> contains ''=>'' (strip U line)"
  shows "load_lines_v2 U nfd cat (line # rest) m = load_lines_v2 U nfd cat rest m"
  using assms by (auto simp: Let_def)

lemma step_v1_skip:
  assumes "\<not> contains ''=>'' (strip U line)"
  shows "load_lines_v1 U u (line # rest) m = load_lines_v1 U u rest m"
  using assms by (simp add: Let_def)

lemma set_update_subset: "set (AList.update k v al) \<subseteq> insert (k, v) (set al)"
  by (induction al) auto

lemma map_of_update_other: "k' \<noteq> k \<Longrightarrow> map_of (AList.update k' v al) k = map_of al k"
  by (simp add: update_conv')

lemma map_of_update_same: "map_of (AList.update k v al) k = Some v"
  by (simp add: update_conv')

lemma step_v2_take_eq:
  assumes "strip U line \<noteq> []" and "\<not> startswith (strip U line) ''#''" and "contains ''=>'' (strip U line)"
    and "split1 ''=>'' line = [k, f]"
  shows "load_lines_v2 U nfd cat (line # rest) m =
     load_lines_v2 U nfd cat rest (AList.update (normalizeText_v2 U nfd cat (Some k)) (strip U f) m)"
  using assms by (simp add: Let_def)

lemma step_v1_take_eq:
  assumes "contains ''=>'' (strip U line)" and "split1 ''=>'' (strip U line) = [k, f]"
  shows "load_lines_v1 U u (line # rest) m =
     load_lines_v1 U u rest (AList.update (normalizeText_v1 U u (Some k)) (strip U f) m)"
  using assms by (simp add: Let_def)

lemma accepted_v2_cases:
  obtains (skip) "strip U line = [] \<or> startswith (strip U line) ''#'' \<or> \<not> contains ''=>'' (strip U line)"
  | (take) k f where "strip U line \<noteq> []" "\<not> startswith (strip U line) ''#''" "contains ''=>'' (strip U line)"
      "split1 ''=>'' line = [k, f]" "line = k @ ''=>'' @ f" "\<not> contains ''=>'' (k @ ''='')"
  using split1_arrow [of line] contains_strip [of "''=>''" U line] by blast

lemma accepted_v1_cases:
  obtains (skip) "\<not> contains ''=>'' (strip U line)"
  | (take) k f where "contains ''=>'' (strip U line)"
      "split1 ''=>'' (strip U line) = [k, f]" "strip U line = k @ ''=>'' @ f"
      "\<not> contains ''=>'' (k @ ''='')"
  using split1_arrow [of "strip U line"] by blast

lemma load_lines_v2_append:
  "load_lines_v2 U nfd cat (xs @ ys) m =
     (case load_lines_v2 U nfd cat xs m of Inl e \<Rightarrow> Inl e | Inr m' \<Rightarrow> load_lines_v2 U nfd cat ys m')"
proof (induction xs arbitrary: m)
  case Nil
  then show ?case by simp
next
  case (Cons x xs)
  show ?case
  proof (cases rule: accepted_v2_cases [where line = x and U = U])
    case skip
    then show ?thesis
      using step_v2_skip [where line = x and U = U and nfd = nfd and cat = cat] Cons.IH by simp
  next
    case (take k f)
    then show ?thesis
      using step_v2_take_eq [where line = x and k = k and f = f and U = U and nfd = nfd and cat = cat] Cons.IH by simp
  qed
qed

lemma load_lines_v1_append:
  "load_lines_v1 U u (xs @ ys) m =
     (case load_lines_v1 U u xs m of Inl e \<Rightarrow> Inl e | Inr m' \<Rightarrow> load_lines_v1 U u ys m')"
proof (induction xs arbitrary: m)
  case Nil
  then show ?case by simp
next
  case (Cons x xs)
  show ?case
  proof (cases rule: accepted_v1_cases [where line = x and U = U])
    case skip
    then show ?thesis
      using step_v1_skip [where line = x and U = U and u = u] Cons.IH by simp
  next
    case (take k f)
    then show ?thesis
      using step_v1_take_eq [where line = x and k = k and f = f and U = U and u = u] Cons.IH by simp
  qed
qed

lemma load_lines_v2_entries:
  "\<exists>t. load_lines_v2 U nfd cat fileLines m = Inr t
       \<and> (\<forall>e\<in>set t. e \<in> set m \<or> (\<exists>line\<in>set fileLines. entry_of_v2 U nfd cat line e))"
proof (induction fileLines arbitrary: m)
  case Nil
  then show ?case by simp
next
  case (Cons x xs)
  show ?case
  proof (cases rule: accepted_v2_cases [where line = x and U = U])
    case skip
    obtain t where t: "load_lines_v2 U nfd cat xs m = Inr t"
      "\<forall>e\<in>set t. e \<in> set m \<or> (\<exists>line\<in>set xs. entry_of_v2 U nfd cat line e)"
      using Cons.IH [of m] by blast
    have "load_lines_v2 U nfd cat (x # xs) m = Inr t"
      using step_v2_skip [OF skip] t(1) by simp
    then show ?thesis using t(2) by auto
  next
    case (take k f)
    let ?e = "(normalizeText_v2 U nfd cat (Some k), strip U f)"
    let ?m = "AList.update (fst ?e) (snd ?e) m"
    obtain t where t: "load_lines_v2 U nfd cat xs ?m = Inr t"
      "\<forall>e\<in>set t. e \<in> set ?m \<or> (\<exists>line\<in>set xs. entry_of_v2 U nfd cat line e)"
      using Cons.IH [of ?m] by blast
    have l: "load_lines_v2 U nfd cat (x # xs) m = Inr t"
      using step_v2_take_eq [OF take(1-4)] t(1) by simp
    have e: "entry_of_v2 U nfd cat x ?e"
      unfolding entry_of_v2_def using take by blast
    have "e \<in> set m \<or> (\<exists>line\<in>set (x # xs). entry_of_v2 U nfd cat line e)" if "e \<in> set t" for e
    proof -
      from t(2) that consider "e \<in> set ?m" | "\<exists>line\<in>set xs. entry_of_v2 U nfd cat line e"
        by blast
      then show ?thesis
      proof cases
        case 1
        then have "e = ?e \<or> e \<in> set m"
          using set_update_subset [of "fst ?e" "snd ?e" m] by auto
        then show ?thesis using e by auto
      next
        case 2
        then show ?thesis by auto
      qed
    qed
    then show ?thesis using l by blast
  qed
qed

lemma load_lines_v1_entries:
  "\<exists>t. load_lines_v1 U u fileLines m = Inr t
       \<and> (\<forall>e\<in>set t. e \<in> set m \<or> (\<exists>line\<in>set fileLines. entry_of_v1 U u line e))"
proof (induction fileLines arbitrary: m)
  case Nil
  then show ?case by simp
next
  case (Cons x xs)
  show ?case
  proof (cases rule: accepted_v1_cases [where line = x and U = U])
    case skip
    obtain t where t: "load_lines_v1 U u xs m = Inr t"
      "\<forall>e\<in>set t. e \<in> set m \<or> (\<exists>line\<in>set xs. entry_of_v1 U u line e)"
      using Cons.IH [of m] by blast
    have "load_lines_v1 U u (x # xs) m = Inr t"
      using step_v1_skip [OF skip] t(1) by simp
    then show ?thesis using t(2) by auto
  next
    case (take k f)
    let ?e = "(normalizeText_v1 U u (Some k), strip U f)"
    let ?m = "AList.update (fst ?e) (snd ?e) m"
    obtain t where t: "load_lines_v1 U u xs ?m = Inr t"
      "\<forall>e\<in>set t. e \<in> set ?m \<or> (\<exists>line\<in>set xs. entry_of_v1 U u line e)"
      using Cons.IH [of ?m] by blast
    have l: "load_lines_v1 U u (x # xs) m = Inr t"
      using step_v1_take_eq [OF take(1,2)] t(1) by simp
    have e: "entry_of_v1 U u x ?e"
      unfolding entry_of_v1_def using take by blast
    have "e \<in> set m \<or> (\<exists>line\<in>set (x # xs). entry_of_v1 U u line e)" if "e \<in> set t" for e
    proof -
      from t(2) that consider "e \<in> set ?m" | "\<exists>line\<in>set xs. entry_of_v1 U u line e"
        by blast
      then show ?thesis
      proof cases
        case 1
        then have "e = ?e \<or> e \<in> set m"
          using set_update_subset [of "fst ?e" "snd ?e" m] by auto
        then show ?thesis using e by auto
      next
        case 2
        then show ?thesis by auto
      qed
    qed
    then show ?thesis using l by blast
  qed
qed

lemma load_lines_v2_skip_line:
  assumes "strip U line = [] \<or> startswith (strip U line) ''#'' \<or> \<not> contains ''=>'' (strip U line)"
  shows "load_lines_v2 U nfd cat (pre @ line # post) m = load_lines_v2 U nfd cat (pre @ post) m"
  by (simp only: load_lines_v2_append step_v2_skip [OF assms])

lemma load_lines_v1_skip_line:
  assumes "\<not> contains ''=>'' (strip U line)"
  shows "load_lines_v1 U u (pre @ line # post) m = load_lines_v1 U u (pre @ post) m"
  by (simp only: load_lines_v1_append step_v1_skip [OF assms])

text \<open>
  C5, amended: whatever the tables of the interpreter are, reading the lines of a mapping
  file raises nothing in either file, and every entry of the table comes from a line
  that holds the delimiter \<open>=>\<close>: its key is the normalized text before the first
  delimiter and its feature the trimmed text behind it, in the case the file has it. In
  \<^verbatim>\<open>istar-uvl.py\<close> that line is neither blank nor a comment, and a line that is blank,
  starts with \<open>#\<close> once trimmed, or has no delimiter changes nothing. In
  \<^verbatim>\<open>iStar-UVL.py\<close> a line without the delimiter, a blank line among them, changes
  nothing; a comment line is not tested for.
\<close>

theorem loadMappingFile_entries:
  "(\<exists>t. loadMappingFile_v2 U nfd cat (fs(filePath \<mapsto> fileLines)) filePath = Inr t
        \<and> (\<forall>e\<in>set t. \<exists>line\<in>set fileLines.
              contains ''=>'' line \<and> entry_of_v2 U nfd cat line e))
   \<and> (strip U line = [] \<or> startswith (strip U line) ''#'' \<or> \<not> contains ''=>'' line \<longrightarrow>
        loadMappingFile_v2 U nfd cat (fs(filePath \<mapsto> pre @ line # post)) filePath
          = loadMappingFile_v2 U nfd cat (fs(filePath \<mapsto> pre @ post)) filePath)
   \<and> (\<exists>t. loadMappingFile_v1 U u (fs(filePath \<mapsto> fileLines)) filePath = Inr t
        \<and> (\<forall>e\<in>set t. \<exists>line\<in>set fileLines.
              contains ''=>'' line \<and> entry_of_v1 U u line e))
   \<and> (\<not> contains ''=>'' line \<longrightarrow>
        loadMappingFile_v1 U u (fs(filePath \<mapsto> pre @ line # post)) filePath
          = loadMappingFile_v1 U u (fs(filePath \<mapsto> pre @ post)) filePath)"
proof -
  have c2: "contains ''=>'' l" if "entry_of_v2 U nfd cat l e" for l e
    using that contains_strip [of "''=>''" U l] unfolding entry_of_v2_def by blast
  have c1: "contains ''=>'' l" if "entry_of_v1 U u l e" for l e
  proof -
    from that obtain k f where "strip U l = k @ ''=>'' @ f"
      unfolding entry_of_v1_def by blast
    then have "contains ''=>'' (strip U l)"
      unfolding contains_iff by blast
    then show ?thesis by (rule contains_strip)
  qed
  have 1: "\<exists>t. loadMappingFile_v2 U nfd cat (fs(filePath \<mapsto> fileLines)) filePath = Inr t
        \<and> (\<forall>e\<in>set t. \<exists>line\<in>set fileLines.
              contains ''=>'' line \<and> entry_of_v2 U nfd cat line e)"
    using load_lines_v2_entries [where U = U and nfd = nfd and cat = cat
        and fileLines = fileLines and m = "[]"] c2
    by (simp add: loadMappingFile_v2_def) blast
  have 2: "\<exists>t. loadMappingFile_v1 U u (fs(filePath \<mapsto> fileLines)) filePath = Inr t
        \<and> (\<forall>e\<in>set t. \<exists>line\<in>set fileLines.
              contains ''=>'' line \<and> entry_of_v1 U u line e)"
    using load_lines_v1_entries [where U = U and u = u and fileLines = fileLines and m = "[]"] c1
    by (simp add: loadMappingFile_v1_def) blast
  have n: "\<not> contains ''=>'' (strip U line)" if "\<not> contains ''=>'' line"
    using that contains_strip [of "''=>''" U line] by blast
  have 3: "loadMappingFile_v2 U nfd cat (fs(filePath \<mapsto> pre @ line # post)) filePath
          = loadMappingFile_v2 U nfd cat (fs(filePath \<mapsto> pre @ post)) filePath"
    if "strip U line = [] \<or> startswith (strip U line) ''#'' \<or> \<not> contains ''=>'' line"
  proof -
    from that n
    have "strip U line = [] \<or> startswith (strip U line) ''#'' \<or> \<not> contains ''=>'' (strip U line)"
      by blast
    then show ?thesis
      by (simp add: loadMappingFile_v2_def load_lines_v2_skip_line)
  qed
  have 4: "loadMappingFile_v1 U u (fs(filePath \<mapsto> pre @ line # post)) filePath
          = loadMappingFile_v1 U u (fs(filePath \<mapsto> pre @ post)) filePath"
    if "\<not> contains ''=>'' line"
    using n [OF that] by (simp add: loadMappingFile_v1_def load_lines_v1_skip_line)
  from 1 2 3 4 show ?thesis by blast
qed

text \<open>A file of \<^verbatim>\<open>istar-uvl.py\<close> with a comment line that holds the delimiter.\<close>

theorem loadMappingFile_entries_witness:
  "loadMappingFile_v2 ascii_tables (\<lambda>s. s) (\<lambda>c. ''Ll'')
     [''algorithms.txt'' \<mapsto> [''# keys => features'', ''RSA  Key => RSA '']] ''algorithms.txt''
   = Inr [(''rsa key'', ''RSA'')]"
proof -
  have skip: "strip ascii_tables ''# keys => features'' = []
      \<or> startswith (strip ascii_tables ''# keys => features'') ''#''
      \<or> \<not> contains ''=>'' ''# keys => features''"
    by code_simp
  have run: "loadMappingFile_v2 ascii_tables (\<lambda>s. s) (\<lambda>c. ''Ll'')
      [''algorithms.txt'' \<mapsto> [''RSA  Key => RSA '']] ''algorithms.txt''
    = Inr [(''rsa key'', ''RSA'')]"
    by code_simp
  from loadMappingFile_entries [where line = "''# keys => features''" and pre = "[]"
      and post = "[''RSA  Key => RSA '']" and U = ascii_tables and nfd = "\<lambda>s. s"
      and cat = "\<lambda>c. ''Ll''" and fs = Map.empty and filePath = "''algorithms.txt''"] skip
  have "loadMappingFile_v2 ascii_tables (\<lambda>s. s) (\<lambda>c. ''Ll'')
      [''algorithms.txt'' \<mapsto> [] @ ''# keys => features'' # [''RSA  Key => RSA '']] ''algorithms.txt''
    = loadMappingFile_v2 ascii_tables (\<lambda>s. s) (\<lambda>c. ''Ll'')
      [''algorithms.txt'' \<mapsto> [] @ [''RSA  Key => RSA '']] ''algorithms.txt''"
    by blast
  then show ?thesis
    unfolding append_Nil run .
qed

text \<open>
  C5 as stated fails for \<^verbatim>\<open>iStar-UVL.py\<close>: a comment line that holds the delimiter gives
  an entry whose key starts with \<open>#\<close>.
\<close>

theorem loadMappingFile_v1_comment_counterexample:
  "loadMappingFile_v1 ascii_tables (\<lambda>s. s)
     [''algorithms.txt'' \<mapsto> [''# keys => features'']] ''algorithms.txt''
   = Inr [(''# keys'', ''features'')]"
  by code_simp

text \<open>The table keeps its keys apart: \<open>AList.update\<close> writes over the pair of a key that
  is present and adds a pair only for a new key.\<close>

lemma load_lines_v2_distinct:
  assumes "load_lines_v2 U nfd cat fileLines m = Inr t" and "distinct (map fst m)"
  shows "distinct (map fst t)"
  using assms
proof (induction fileLines arbitrary: m)
  case Nil
  then show ?case by simp
next
  case (Cons x xs)
  show ?case
  proof (cases rule: accepted_v2_cases [where line = x and U = U])
    case skip
    from Cons.prems(1) have "load_lines_v2 U nfd cat xs m = Inr t"
      by (simp only: step_v2_skip [OF skip])
    then show ?thesis using Cons.prems(2) by (rule Cons.IH)
  next
    case (take k f)
    let ?m = "AList.update (normalizeText_v2 U nfd cat (Some k)) (strip U f) m"
    from Cons.prems(1) have "load_lines_v2 U nfd cat xs ?m = Inr t"
      by (simp only: step_v2_take_eq [OF take(1-4)])
    moreover have "distinct (map fst ?m)"
      using Cons.prems(2) by (rule distinct_update)
    ultimately show ?thesis by (rule Cons.IH)
  qed
qed

lemma load_lines_v1_distinct:
  assumes "load_lines_v1 U u fileLines m = Inr t" and "distinct (map fst m)"
  shows "distinct (map fst t)"
  using assms
proof (induction fileLines arbitrary: m)
  case Nil
  then show ?case by simp
next
  case (Cons x xs)
  show ?case
  proof (cases rule: accepted_v1_cases [where line = x and U = U])
    case skip
    from Cons.prems(1) have "load_lines_v1 U u xs m = Inr t"
      by (simp only: step_v1_skip [OF skip])
    then show ?thesis using Cons.prems(2) by (rule Cons.IH)
  next
    case (take k f)
    let ?m = "AList.update (normalizeText_v1 U u (Some k)) (strip U f) m"
    from Cons.prems(1) have "load_lines_v1 U u xs ?m = Inr t"
      by (simp only: step_v1_take_eq [OF take(1,2)])
    moreover have "distinct (map fst ?m)"
      using Cons.prems(2) by (rule distinct_update)
    ultimately show ?thesis by (rule Cons.IH)
  qed
qed

lemma alist_only_pair:
  assumes "distinct (map fst t)" and "map_of t k = Some v"
  shows "filter (\<lambda>e. fst e = k) t = [(k, v)]"
  using assms
proof (induction t)
  case Nil
  then show ?case by simp
next
  case (Cons p t)
  show ?case
  proof (cases "fst p = k")
    case True
    with Cons.prems(2) have v: "snd p = v" by (cases p) simp
    from Cons.prems(1) True have "k \<notin> fst ` set t" by simp
    then have "filter (\<lambda>e. fst e = k) t = []"
      by (auto simp: filter_empty_conv)
    with True v show ?thesis by (cases p) simp
  next
    case False
    with Cons.prems have "distinct (map fst t)" "map_of t k = Some v"
      by (cases p; simp)+
    then have "filter (\<lambda>e. fst e = k) t = [(k, v)]" by (rule Cons.IH)
    with False show ?thesis by simp
  qed
qed

lemma load_lines_v2_keeps:
  assumes "\<forall>l\<in>set post. strip U l \<noteq> [] \<and> \<not> startswith (strip U l) ''#'' \<and> contains ''=>'' (strip U l) \<longrightarrow>
      (\<forall>k f. split1 ''=>'' l = [k, f] \<longrightarrow> normalizeText_v2 U nfd cat (Some k) \<noteq> key)"
  shows "\<exists>t. load_lines_v2 U nfd cat post m = Inr t \<and> map_of t key = map_of m key"
  using assms
proof (induction post arbitrary: m)
  case Nil
  then show ?case by simp
next
  case (Cons x xs)
  then have rest: "\<forall>l\<in>set xs. strip U l \<noteq> [] \<and> \<not> startswith (strip U l) ''#'' \<and> contains ''=>'' (strip U l) \<longrightarrow>
      (\<forall>k f. split1 ''=>'' l = [k, f] \<longrightarrow> normalizeText_v2 U nfd cat (Some k) \<noteq> key)"
    by simp
  show ?case
  proof (cases rule: accepted_v2_cases [where line = x and U = U])
    case skip
    then show ?thesis
      using step_v2_skip [where line = x and U = U and nfd = nfd and cat = cat and rest = xs and m = m] Cons.IH [OF rest, of m] by simp
  next
    case (take k f)
    let ?m = "AList.update (normalizeText_v2 U nfd cat (Some k)) (strip U f) m"
    have "normalizeText_v2 U nfd cat (Some k) \<noteq> key"
      using Cons.prems take(1-4) by simp
    then have "map_of ?m key = map_of m key"
      by (rule map_of_update_other)
    then show ?thesis
      using step_v2_take_eq [OF take(1-4), where nfd = nfd and cat = cat and rest = xs and m = m]
        Cons.IH [OF rest, of ?m] by simp
  qed
qed

lemma load_lines_v1_keeps:
  assumes "\<forall>l\<in>set post. contains ''=>'' (strip U l) \<longrightarrow>
      (\<forall>k f. split1 ''=>'' (strip U l) = [k, f] \<longrightarrow> normalizeText_v1 U u (Some k) \<noteq> key)"
  shows "\<exists>t. load_lines_v1 U u post m = Inr t \<and> map_of t key = map_of m key"
  using assms
proof (induction post arbitrary: m)
  case Nil
  then show ?case by simp
next
  case (Cons x xs)
  then have rest: "\<forall>l\<in>set xs. contains ''=>'' (strip U l) \<longrightarrow>
      (\<forall>k f. split1 ''=>'' (strip U l) = [k, f] \<longrightarrow> normalizeText_v1 U u (Some k) \<noteq> key)"
    by simp
  show ?case
  proof (cases rule: accepted_v1_cases [where line = x and U = U])
    case skip
    then show ?thesis
      using step_v1_skip [where line = x and U = U and u = u and rest = xs and m = m] Cons.IH [OF rest, of m] by simp
  next
    case (take k f)
    let ?m = "AList.update (normalizeText_v1 U u (Some k)) (strip U f) m"
    have "normalizeText_v1 U u (Some k) \<noteq> key"
      using Cons.prems take(1,2) by simp
    then have "map_of ?m key = map_of m key"
      by (rule map_of_update_other)
    then show ?thesis
      using step_v1_take_eq [OF take(1,2), where u = u and rest = xs and m = m]
        Cons.IH [OF rest, of ?m] by simp
  qed
qed

lemma last_wins_v2:
  assumes "strip U line \<noteq> []" and "\<not> startswith (strip U line) ''#''" and "contains ''=>'' (strip U line)"
    and "split1 ''=>'' line = [keyPart, featurePart]"
    and "\<forall>l\<in>set post. strip U l \<noteq> [] \<and> \<not> startswith (strip U l) ''#'' \<and> contains ''=>'' (strip U l) \<longrightarrow>
      (\<forall>k f. split1 ''=>'' l = [k, f] \<longrightarrow>
         normalizeText_v2 U nfd cat (Some k) \<noteq> normalizeText_v2 U nfd cat (Some keyPart))"
  shows "\<exists>t. load_lines_v2 U nfd cat (pre @ line # post) [] = Inr t
       \<and> distinct (map fst t)
       \<and> map_of t (normalizeText_v2 U nfd cat (Some keyPart)) = Some (strip U featurePart)
       \<and> filter (\<lambda>e. fst e = normalizeText_v2 U nfd cat (Some keyPart)) t
           = [(normalizeText_v2 U nfd cat (Some keyPart), strip U featurePart)]"
proof -
  let ?key = "normalizeText_v2 U nfd cat (Some keyPart)"
  obtain m where m: "load_lines_v2 U nfd cat pre [] = Inr m"
    using load_lines_v2_entries [where U = U and nfd = nfd and cat = cat and fileLines = pre and m = "[]"] by blast
  let ?m = "AList.update ?key (strip U featurePart) m"
  obtain t where t: "load_lines_v2 U nfd cat post ?m = Inr t" "map_of t ?key = map_of ?m ?key"
    using load_lines_v2_keeps [OF assms(5), where m = ?m] by blast
  have l: "load_lines_v2 U nfd cat (pre @ line # post) [] = Inr t"
    by (simp only: load_lines_v2_append m sum.case step_v2_take_eq [OF assms(1-4)] t(1))
  have "distinct (map fst m)"
    using load_lines_v2_distinct [OF m] by simp
  then have "distinct (map fst ?m)"
    by (rule distinct_update)
  with t(1) have d: "distinct (map fst t)"
    by (rule load_lines_v2_distinct)
  have mo: "map_of t ?key = Some (strip U featurePart)"
    using t(2) by (simp add: map_of_update_same)
  from d mo have "filter (\<lambda>e. fst e = ?key) t = [(?key, strip U featurePart)]"
    by (rule alist_only_pair)
  with l d mo show ?thesis by blast
qed

lemma last_wins_v1:
  assumes "contains ''=>'' (strip U line)"
    and "split1 ''=>'' (strip U line) = [keyPart, featurePart]"
    and "\<forall>l\<in>set post. contains ''=>'' (strip U l) \<longrightarrow>
      (\<forall>k f. split1 ''=>'' (strip U l) = [k, f] \<longrightarrow>
         normalizeText_v1 U u (Some k) \<noteq> normalizeText_v1 U u (Some keyPart))"
  shows "\<exists>t. load_lines_v1 U u (pre @ line # post) [] = Inr t
       \<and> distinct (map fst t)
       \<and> map_of t (normalizeText_v1 U u (Some keyPart)) = Some (strip U featurePart)
       \<and> filter (\<lambda>e. fst e = normalizeText_v1 U u (Some keyPart)) t
           = [(normalizeText_v1 U u (Some keyPart), strip U featurePart)]"
proof -
  let ?key = "normalizeText_v1 U u (Some keyPart)"
  obtain m where m: "load_lines_v1 U u pre [] = Inr m"
    using load_lines_v1_entries [where U = U and u = u and fileLines = pre and m = "[]"] by blast
  let ?m = "AList.update ?key (strip U featurePart) m"
  obtain t where t: "load_lines_v1 U u post ?m = Inr t" "map_of t ?key = map_of ?m ?key"
    using load_lines_v1_keeps [OF assms(3), where m = ?m] by blast
  have l: "load_lines_v1 U u (pre @ line # post) [] = Inr t"
    by (simp only: load_lines_v1_append m sum.case step_v1_take_eq [OF assms(1,2)] t(1))
  have "distinct (map fst m)"
    using load_lines_v1_distinct [OF m] by simp
  then have "distinct (map fst ?m)"
    by (rule distinct_update)
  with t(1) have d: "distinct (map fst t)"
    by (rule load_lines_v1_distinct)
  have mo: "map_of t ?key = Some (strip U featurePart)"
    using t(2) by (simp add: map_of_update_same)
  from d mo have "filter (\<lambda>e. fst e = ?key) t = [(?key, strip U featurePart)]"
    by (rule alist_only_pair)
  with l d mo show ?thesis by blast
qed

text \<open>
  C10: in both files and whatever the tables of the interpreter are, when a line of a
  mapping file is accepted and no accepted line behind it has the same normalized key,
  loading raises nothing, no key has more than one pair in the table, and the one pair
  of that key holds the trimmed feature of that line, whatever earlier lines gave for
  the key: a later line writes over what an earlier line gave, and nothing of the
  earlier feature is left.
\<close>

theorem loadMappingFile_last_wins:
  "(strip U line \<noteq> [] \<and> \<not> startswith (strip U line) ''#'' \<and> contains ''=>'' (strip U line)
      \<and> split1 ''=>'' line = [keyPart, featurePart]
      \<and> (\<forall>l\<in>set post.
            strip U l \<noteq> [] \<and> \<not> startswith (strip U l) ''#'' \<and> contains ''=>'' (strip U l) \<longrightarrow>
            (\<forall>k f. split1 ''=>'' l = [k, f] \<longrightarrow>
               normalizeText_v2 U nfd cat (Some k) \<noteq> normalizeText_v2 U nfd cat (Some keyPart)))
    \<longrightarrow> (\<exists>t. loadMappingFile_v2 U nfd cat (fs(filePath \<mapsto> pre @ line # post)) filePath = Inr t
          \<and> distinct (map fst t)
          \<and> map_of t (normalizeText_v2 U nfd cat (Some keyPart)) = Some (strip U featurePart)
          \<and> filter (\<lambda>e. fst e = normalizeText_v2 U nfd cat (Some keyPart)) t
              = [(normalizeText_v2 U nfd cat (Some keyPart), strip U featurePart)]))
   \<and> (contains ''=>'' (strip U line)
      \<and> split1 ''=>'' (strip U line) = [keyPart, featurePart]
      \<and> (\<forall>l\<in>set post. contains ''=>'' (strip U l) \<longrightarrow>
            (\<forall>k f. split1 ''=>'' (strip U l) = [k, f] \<longrightarrow>
               normalizeText_v1 U u (Some k) \<noteq> normalizeText_v1 U u (Some keyPart)))
    \<longrightarrow> (\<exists>t. loadMappingFile_v1 U u (fs(filePath \<mapsto> pre @ line # post)) filePath = Inr t
          \<and> distinct (map fst t)
          \<and> map_of t (normalizeText_v1 U u (Some keyPart)) = Some (strip U featurePart)
          \<and> filter (\<lambda>e. fst e = normalizeText_v1 U u (Some keyPart)) t
              = [(normalizeText_v1 U u (Some keyPart), strip U featurePart)]))"
  using last_wins_v2 [where line = line and keyPart = keyPart and featurePart = featurePart
      and post = post and U = U and nfd = nfd and cat = cat and pre = pre]
    last_wins_v1 [where line = line and keyPart = keyPart and featurePart = featurePart
      and post = post and U = U and u = u and pre = pre]
  by (simp add: loadMappingFile_v1_def loadMappingFile_v2_def)

text \<open>Two lines whose keys are normalized to \<open>aes\<close>: the table has one pair, in the
  place of the first line and with the feature of the second.\<close>

theorem loadMappingFile_last_wins_witness:
  "loadMappingFile_v2 ascii_tables (\<lambda>s. s) (\<lambda>c. ''Ll'')
     [''algorithms.txt'' \<mapsto> [''aes => AES'', ''rsa => RSA'', ''AES => Rijndael'']]
     ''algorithms.txt''
     = Inr [(''aes'', ''Rijndael''), (''rsa'', ''RSA'')]
   \<and> (\<exists>t. loadMappingFile_v2 ascii_tables (\<lambda>s. s) (\<lambda>c. ''Ll'')
          [''algorithms.txt'' \<mapsto> [''aes => AES'', ''rsa => RSA'', ''AES => Rijndael'']]
          ''algorithms.txt'' = Inr t
        \<and> distinct (map fst t)
        \<and> map_of t ''aes'' = Some ''Rijndael''
        \<and> filter (\<lambda>e. fst e = ''aes'') t = [(''aes'', ''Rijndael'')])"
proof -
  have a: "strip ascii_tables ''AES => Rijndael'' \<noteq> []"
    "\<not> startswith (strip ascii_tables ''AES => Rijndael'') ''#''"
    "contains ''=>'' (strip ascii_tables ''AES => Rijndael'')"
    "split1 ''=>'' ''AES => Rijndael'' = [''AES '', '' Rijndael'']"
    by code_simp+
  have k: "normalizeText_v2 ascii_tables (\<lambda>s. s) (\<lambda>c. ''Ll'') (Some ''AES '') = ''aes''"
    and f: "strip ascii_tables '' Rijndael'' = ''Rijndael''"
    by code_simp+
  have e: "loadMappingFile_v2 ascii_tables (\<lambda>s. s) (\<lambda>c. ''Ll'')
     [''algorithms.txt'' \<mapsto> [''aes => AES'', ''rsa => RSA'', ''AES => Rijndael'']]
     ''algorithms.txt''
     = Inr [(''aes'', ''Rijndael''), (''rsa'', ''RSA'')]"
    by code_simp
  have "\<exists>t. loadMappingFile_v2 ascii_tables (\<lambda>s. s) (\<lambda>c. ''Ll'')
          (Map.empty(''algorithms.txt'' \<mapsto> [''aes => AES'', ''rsa => RSA''] @ ''AES => Rijndael'' # []))
          ''algorithms.txt'' = Inr t
       \<and> distinct (map fst t)
       \<and> map_of t (normalizeText_v2 ascii_tables (\<lambda>s. s) (\<lambda>c. ''Ll'') (Some ''AES ''))
           = Some (strip ascii_tables '' Rijndael'')
       \<and> filter (\<lambda>e. fst e = normalizeText_v2 ascii_tables (\<lambda>s. s) (\<lambda>c. ''Ll'') (Some ''AES '')) t
           = [(normalizeText_v2 ascii_tables (\<lambda>s. s) (\<lambda>c. ''Ll'') (Some ''AES ''),
               strip ascii_tables '' Rijndael'')]"
    using conjunct1 [OF loadMappingFile_last_wins [where line = "''AES => Rijndael''"
      and post = "[]" and pre = "[''aes => AES'', ''rsa => RSA'']" and keyPart = "''AES ''"
      and featurePart = "'' Rijndael''" and U = ascii_tables and nfd = "\<lambda>s. s"
      and cat = "\<lambda>c. ''Ll''" and fs = Map.empty and filePath = "''algorithms.txt''"]] a
    by simp
  then have "\<exists>t. loadMappingFile_v2 ascii_tables (\<lambda>s. s) (\<lambda>c. ''Ll'')
          [''algorithms.txt'' \<mapsto> [''aes => AES'', ''rsa => RSA'', ''AES => Rijndael'']]
          ''algorithms.txt'' = Inr t
        \<and> distinct (map fst t)
        \<and> map_of t ''aes'' = Some ''Rijndael''
        \<and> filter (\<lambda>e. fst e = ''aes'') t = [(''aes'', ''Rijndael'')]"
    unfolding k f by simp
  with e show ?thesis by (rule conjI)
qed

lemma loadMappingFile_v2_total: "\<exists>t. loadMappingFile_v2 U nfd cat fs filePath = Inr t"
  using load_lines_v2_entries [where U = U and nfd = nfd and cat = cat and fileLines = _ and m = "[]"]
  by (cases "fs filePath") (auto simp: loadMappingFile_v2_def)

lemma loadMappingFile_v1_present:
  "fs filePath = Some fileLines \<Longrightarrow> \<exists>t. loadMappingFile_v1 U u fs filePath = Inr t"
  using load_lines_v1_entries [where U = U and u = u and fileLines = fileLines and m = "[]"]
  by (auto simp: loadMappingFile_v1_def)

lemma loadMappingFile_v2_absent_or_empty:
  assumes "fs missing = None"
  shows "loadMappingFile_v2 U nfd cat (fs(missing \<mapsto> [])) filePath
           = loadMappingFile_v2 U nfd cat fs filePath"
  using assms by (simp add: loadMappingFile_v2_def)

lemma loadAllMappingFiles_v2_absent_or_empty:
  assumes "fs missing = None"
  shows "loadAllMappingFiles_v2 U nfd cat (fs(missing \<mapsto> [])) configDirectory
           = loadAllMappingFiles_v2 U nfd cat fs configDirectory"
  unfolding loadAllMappingFiles_v2_def
  by (simp only: loadMappingFile_v2_absent_or_empty [where fs = fs and missing = missing, OF assms])

lemma loadAllMappingFiles_v2_tables:
  assumes "category \<in> set categories"
  shows "\<exists>md t. loadAllMappingFiles_v2 U nfd cat fs configDirectory = Inr md
       \<and> md category = Some t
       \<and> loadMappingFile_v2 U nfd cat fs (configDirectory @ ''/'' @ category @ ''.txt'') = Inr t"
proof -
  obtain t1 where 1: "loadMappingFile_v2 U nfd cat fs (configDirectory @ ''/algorithms.txt'') = Inr t1"
    using loadMappingFile_v2_total by blast
  obtain t2 where 2: "loadMappingFile_v2 U nfd cat fs (configDirectory @ ''/nfrs.txt'') = Inr t2"
    using loadMappingFile_v2_total by blast
  obtain t3 where 3: "loadMappingFile_v2 U nfd cat fs (configDirectory @ ''/backend.txt'') = Inr t3"
    using loadMappingFile_v2_total by blast
  obtain t4 where 4: "loadMappingFile_v2 U nfd cat fs (configDirectory @ ''/integration.txt'') = Inr t4"
    using loadMappingFile_v2_total by blast
  have all: "loadAllMappingFiles_v2 U nfd cat fs configDirectory =
      Inr [''algorithms'' \<mapsto> t1, ''nfrs'' \<mapsto> t2, ''backend'' \<mapsto> t3, ''integration'' \<mapsto> t4]"
    by (simp add: loadAllMappingFiles_v2_def 1 2 3 4)
  from assms consider "category = ''algorithms''" | "category = ''nfrs''"
    | "category = ''backend''" | "category = ''integration''"
    by (auto simp: categories_def)
  then show ?thesis
  proof cases
    case 1
    then show ?thesis using all \<open>loadMappingFile_v2 U nfd cat fs (configDirectory @ ''/algorithms.txt'') = Inr t1\<close> by simp
  next
    case 2
    then show ?thesis using all \<open>loadMappingFile_v2 U nfd cat fs (configDirectory @ ''/nfrs.txt'') = Inr t2\<close> by simp
  next
    case 3
    then show ?thesis using all \<open>loadMappingFile_v2 U nfd cat fs (configDirectory @ ''/backend.txt'') = Inr t3\<close> by simp
  next
    case 4
    then show ?thesis using all \<open>loadMappingFile_v2 U nfd cat fs (configDirectory @ ''/integration.txt'') = Inr t4\<close> by simp
  qed
qed

lemma load_categories_v1_missing:
  assumes "category \<in> set cs" and "fs (configDirectory @ ''/'' @ category @ ''.txt'') = None"
  shows "load_categories_v1 U u fs configDirectory cs categoryMappings = Inl FileNotFoundError"
  using assms(1)
proof (induction cs arbitrary: categoryMappings)
  case Nil
  then show ?case by simp
next
  case (Cons c rest)
  show ?case
  proof (cases "fs (configDirectory @ ''/'' @ c @ ''.txt'')")
    case None
    then show ?thesis by (simp add: loadMappingFile_v1_def)
  next
    case (Some fileLines)
    then obtain t where t: "loadMappingFile_v1 U u fs (configDirectory @ ''/'' @ c @ ''.txt'') = Inr t"
      using loadMappingFile_v1_present by blast
    from Some assms(2) have "c \<noteq> category" by auto
    with Cons.prems have "category \<in> set rest" by simp
    then show ?thesis
      using Cons.IH t by simp
  qed
qed

text \<open>
  C4, amended: when the mapping file of one of the four categories does not exist,
  \<^verbatim>\<open>istar-uvl.py\<close> loads the empty table for it and raises nothing, and the dictionary
  of the four tables, and with it every classification, is what it would be with that
  file present and empty. \<^verbatim>\<open>iStar-UVL.py\<close> raises \<^verbatim>\<open>FileNotFoundError\<close> from
  loadMappingFile, and loadAllMappingFiles ends with that error.
\<close>

theorem missing_mapping_file:
  assumes "category \<in> set categories"
    and "fs (configDirectory @ ''/'' @ category @ ''.txt'') = None"
  shows "loadMappingFile_v2 U nfd cat fs (configDirectory @ ''/'' @ category @ ''.txt'') = Inr []
     \<and> (\<exists>md. loadAllMappingFiles_v2 U nfd cat fs configDirectory = Inr md \<and> md category = Some [])
     \<and> loadAllMappingFiles_v2 U nfd cat fs configDirectory
         = loadAllMappingFiles_v2 U nfd cat
             (fs(configDirectory @ ''/'' @ category @ ''.txt'' \<mapsto> [])) configDirectory
     \<and> (case loadAllMappingFiles_v2 U nfd cat fs configDirectory of
           Inl e \<Rightarrow> Inl e | Inr md \<Rightarrow> mapIStarObjectsToFeatures objectList md)
         = (case loadAllMappingFiles_v2 U nfd cat
                  (fs(configDirectory @ ''/'' @ category @ ''.txt'' \<mapsto> [])) configDirectory of
              Inl e \<Rightarrow> Inl e | Inr md \<Rightarrow> mapIStarObjectsToFeatures objectList md)
     \<and> loadMappingFile_v1 U u fs (configDirectory @ ''/'' @ category @ ''.txt'') = Inl FileNotFoundError
     \<and> loadAllMappingFiles_v1 U u fs configDirectory = Inl FileNotFoundError"
proof -
  let ?p = "configDirectory @ ''/'' @ category @ ''.txt''"
  have 1: "loadMappingFile_v2 U nfd cat fs ?p = Inr []"
    using assms(2) by (simp add: loadMappingFile_v2_def)
  obtain md t where md: "loadAllMappingFiles_v2 U nfd cat fs configDirectory = Inr md"
    "md category = Some t" "loadMappingFile_v2 U nfd cat fs ?p = Inr t"
    using loadAllMappingFiles_v2_tables [OF assms(1)] by blast
  from md(3) 1 have "t = []" by simp
  with md have 2: "\<exists>md. loadAllMappingFiles_v2 U nfd cat fs configDirectory = Inr md
      \<and> md category = Some []"
    by blast
  have 3: "loadAllMappingFiles_v2 U nfd cat (fs(?p \<mapsto> [])) configDirectory
         = loadAllMappingFiles_v2 U nfd cat fs configDirectory"
    by (rule loadAllMappingFiles_v2_absent_or_empty [where fs = fs and missing = ?p, OF assms(2)])
  have 4: "loadMappingFile_v1 U u fs ?p = Inl FileNotFoundError"
    using assms(2) by (simp add: loadMappingFile_v1_def)
  have 5: "loadAllMappingFiles_v1 U u fs configDirectory = Inl FileNotFoundError"
    unfolding loadAllMappingFiles_v1_def
    using assms by (rule load_categories_v1_missing)
  show ?thesis
    unfolding 3 using 1 2 4 5 by simp
qed

theorem missing_mapping_file_witness:
  "loadMappingFile_v2 ascii_tables (\<lambda>s. s) (\<lambda>c. ''Ll'')
     [''config/algorithms.txt'' \<mapsto> [''aes => AES''], ''config/backend.txt'' \<mapsto> [],
      ''config/integration.txt'' \<mapsto> []] ''config/nfrs.txt'' = Inr []
   \<and> (\<exists>md. loadAllMappingFiles_v2 ascii_tables (\<lambda>s. s) (\<lambda>c. ''Ll'')
         [''config/algorithms.txt'' \<mapsto> [''aes => AES''], ''config/backend.txt'' \<mapsto> [],
          ''config/integration.txt'' \<mapsto> []] ''config'' = Inr md
        \<and> md ''nfrs'' = Some [])"
proof -
  let ?fs = "[''config/algorithms.txt'' \<mapsto> [''aes => AES''], ''config/backend.txt'' \<mapsto> [],
      ''config/integration.txt'' \<mapsto> []]"
  have c: "''nfrs'' \<in> set categories" by (simp add: categories_def)
  have m: "?fs (''config'' @ ''/'' @ ''nfrs'' @ ''.txt'') = None" by simp
  note t = missing_mapping_file [where category = "''nfrs''" and fs = ?fs
      and configDirectory = "''config''" and U = ascii_tables and nfd = "\<lambda>s. s"
      and cat = "\<lambda>c. ''Ll''", OF c m]
  have a: "loadMappingFile_v2 ascii_tables (\<lambda>s. s) (\<lambda>c. ''Ll'') ?fs ''config/nfrs.txt'' = Inr []"
    using conjunct1 [OF t] by simp
  have b: "\<exists>md. loadAllMappingFiles_v2 ascii_tables (\<lambda>s. s) (\<lambda>c. ''Ll'') ?fs ''config'' = Inr md
      \<and> md ''nfrs'' = Some []"
    by (rule conjunct1 [OF conjunct2 [OF t]])
  from a b show ?thesis by (rule conjI)
qed

text \<open>
  C4 as stated fails for \<^verbatim>\<open>iStar-UVL.py\<close>: with three of the four files present and
  \<^verbatim>\<open>nfrs.txt\<close> missing, loading the dictionaries ends with the error and gives no table.
\<close>

theorem loadAllMappingFiles_v1_counterexample:
  "loadAllMappingFiles_v1 ascii_tables (\<lambda>s. s)
     [''config/algorithms.txt'' \<mapsto> [''aes => AES''], ''config/backend.txt'' \<mapsto> [],
      ''config/integration.txt'' \<mapsto> []] ''config'' = Inl FileNotFoundError"
proof -
  have a: "loadMappingFile_v1 ascii_tables (\<lambda>s. s)
     [''config/algorithms.txt'' \<mapsto> [''aes => AES''], ''config/backend.txt'' \<mapsto> [],
      ''config/integration.txt'' \<mapsto> []] ''config/algorithms.txt'' = Inr [(''aes'', ''AES'')]"
    by code_simp
  have n: "loadMappingFile_v1 ascii_tables (\<lambda>s. s)
     [''config/algorithms.txt'' \<mapsto> [''aes => AES''], ''config/backend.txt'' \<mapsto> [],
      ''config/integration.txt'' \<mapsto> []] ''config/nfrs.txt'' = Inl FileNotFoundError"
    by code_simp
  show ?thesis
    unfolding loadAllMappingFiles_v1_def categories_def
    by (simp add: a n)
qed

end
